theory Spec2Isabelle
  imports Complex_Main "HOL-Library.Log_Nat"
begin

section \<open>Python values shared by the modelled modules\<close>

text \<open>
  The exceptions the modelled code can raise.  \<open>ValueError\<close> is what numpy's
  \<open>argmin\<close>/\<open>argmax\<close> raise on an empty sequence, \<open>IndexError\<close> is a list index
  out of range, \<open>KeyError\<close> a missing dictionary key and \<open>ZeroDivisionError\<close> a
  division by zero.
\<close>

datatype py_error = ValueError | IndexError | KeyError | ZeroDivisionError

text \<open>
  What a call can raise in all: an exception of the libraries that read and
  write files and run the networks (a missing file, a file that is no image, an
  OpenCV error, an operating system error, an error of the network runtime), or
  one of the exceptions above.
\<close>

datatype io_error =
  FileNotFoundError | UnidentifiedImageError | Cv2Error | OSError | RuntimeError | Raised py_error

subsection \<open>numpy's argmin and argmax\<close>

text \<open>
  \<open>np.argmin\<close> returns the index of the first occurrence of the minimum and
  \<open>np.argmax\<close> the index of the first occurrence of the maximum; both raise on an
  empty sequence.  The scan keeps the best value seen so far, the index where it
  was seen and the index of the next element.  Distances are modelled over any
  linear order (the floating point values in a matrix carry no NaN).
\<close>

fun argmin_from :: "'a::linorder \<Rightarrow> nat \<Rightarrow> nat \<Rightarrow> 'a list \<Rightarrow> nat" where
  "argmin_from b bi i [] = bi"
| "argmin_from b bi i (x # xs) =
     (if x < b then argmin_from x i (Suc i) xs else argmin_from b bi (Suc i) xs)"

definition np_argmin :: "'a::linorder list \<Rightarrow> py_error + nat" where
  "np_argmin xs = (case xs of [] \<Rightarrow> Inl ValueError | x # rest \<Rightarrow> Inr (argmin_from x 0 1 rest))"

fun argmax_from :: "'a::linorder \<Rightarrow> nat \<Rightarrow> nat \<Rightarrow> 'a list \<Rightarrow> nat" where
  "argmax_from b bi i [] = bi"
| "argmax_from b bi i (x # xs) =
     (if b < x then argmax_from x i (Suc i) xs else argmax_from b bi (Suc i) xs)"

definition np_argmax :: "'a::linorder list \<Rightarrow> py_error + nat" where
  "np_argmax xs = (case xs of [] \<Rightarrow> Inl ValueError | x # rest \<Rightarrow> Inr (argmax_from x 0 1 rest))"

subsection \<open>Dictionaries that remember insertion order\<close>

text \<open>
  A Python \<open>dict\<close> iterates in insertion order, and \<open>format_output_dict\<close> iterates
  over the resolver's dictionary, so a dictionary is an association list with
  one pair per key.  \<open>dict_set\<close> is \<open>d[k] = v\<close> (overwrite in place, or append a new
  key), \<open>dict_append\<close> is \<open>d[k].append(x)\<close>, which raises \<open>KeyError\<close> on a missing
  key.
\<close>

fun dict_set :: "('k \<times> 'v) list \<Rightarrow> 'k \<Rightarrow> 'v \<Rightarrow> ('k \<times> 'v) list" where
  "dict_set [] k v = [(k, v)]"
| "dict_set ((k', v') # d) k v = (if k' = k then (k, v) # d else (k', v') # dict_set d k v)"

fun dict_append :: "('k \<times> 'v list) list \<Rightarrow> 'k \<Rightarrow> 'v \<Rightarrow> py_error + ('k \<times> 'v list) list" where
  "dict_append [] k x = Inl KeyError"
| "dict_append ((k', vs) # d) k x =
     (if k' = k then Inr ((k', vs @ [x]) # d)
      else (case dict_append d k x of Inl e \<Rightarrow> Inl e | Inr d' \<Rightarrow> Inr ((k', vs) # d')))"

fun dict_contains :: "('k \<times> 'v) list \<Rightarrow> 'k \<Rightarrow> bool" where
  "dict_contains [] k = False"
| "dict_contains ((k', v') # d) k = (k' = k \<or> dict_contains d k)"

section \<open>The greedy cluster resolver (ReID.process\_dist\_mat)\<close>

text \<open>
  The state of the loop in \<open>process_dist_mat\<close>: the dictionary from cluster id to
  member list, the owner list \<open>keys\<close> (\<open>-1\<close> marks an index without owner) and the
  counter that allocates cluster ids.
\<close>

record resolver_state =
  output_dict :: "(int \<times> nat list) list"
  keys :: "int list"
  counter :: int

text \<open>
  One iteration of the loop, for row \<open>r\<close>.  \<open>np.argmin\<close> raises on an empty row.
  Every branch of the \<open>if\<close>/\<open>elif\<close> chain reads \<open>keys[matched_index]\<close>, which
  raises \<open>IndexError\<close> when the row is longer than the matrix has rows.
\<close>

definition resolve_row :: "'a::linorder list list \<Rightarrow> nat \<Rightarrow> resolver_state \<Rightarrow> py_error + resolver_state" where
  "resolve_row dist_mat r s =
     (case np_argmin (dist_mat ! r) of
        Inl e \<Rightarrow> Inl e
      | Inr matched_index \<Rightarrow>
          if length (keys s) \<le> matched_index then Inl IndexError
          else if keys s ! r = -1 \<and> keys s ! matched_index = -1 then
            (let od = dict_set (output_dict s) (counter s) [r];
                 ks = (keys s)[r := counter s]
             in case dict_append od (ks ! r) matched_index of
                  Inl e \<Rightarrow> Inl e
                | Inr od' \<Rightarrow>
                    Inr \<lparr>output_dict = od', keys = ks[matched_index := counter s],
                         counter = counter s + 1\<rparr>)
          else if keys s ! r = -1 \<and> keys s ! matched_index \<noteq> -1 then
            (case dict_append (output_dict s) (keys s ! matched_index) r of
               Inl e \<Rightarrow> Inl e
             | Inr od' \<Rightarrow>
                 Inr (s\<lparr>output_dict := od', keys := (keys s)[r := keys s ! matched_index]\<rparr>))
          else if keys s ! r \<noteq> -1 \<and> keys s ! matched_index = -1 then
            (case dict_append (output_dict s) (keys s ! r) matched_index of
               Inl e \<Rightarrow> Inl e
             | Inr od' \<Rightarrow>
                 Inr (s\<lparr>output_dict := od', keys := (keys s)[matched_index := keys s ! r]\<rparr>))
          else Inr s)"

text \<open>The loop \<open>for r in range(len(dist_mat))\<close>; an exception ends it.\<close>

fun resolve_rows :: "'a::linorder list list \<Rightarrow> nat list \<Rightarrow> resolver_state \<Rightarrow> py_error + resolver_state" where
  "resolve_rows dist_mat [] s = Inr s"
| "resolve_rows dist_mat (r # rs) s =
     (case resolve_row dist_mat r s of
        Inl e \<Rightarrow> Inl e
      | Inr s' \<Rightarrow> resolve_rows dist_mat rs s')"

definition process_dist_mat :: "'a::linorder list list \<Rightarrow> py_error + (int \<times> nat list) list" where
  "process_dist_mat dist_mat =
     (let number_of_images = length dist_mat;
          s0 = \<lparr>output_dict = [], keys = replicate number_of_images (-1), counter = 0\<rparr>
      in case resolve_rows dist_mat [0..<length dist_mat] s0 of
           Inl e \<Rightarrow> Inl e
         | Inr s \<Rightarrow> Inr (output_dict s))"

subsection \<open>The matching rule as the design document words it\<close>

text \<open>
  The design document describes the resolver as a single pass over the rows in
  index order: row \<open>r\<close> is matched to \<open>m\<close>, the first minimum of its row (ties go
  to the lowest index), and a rule with four cases on the owners of \<open>r\<close> and \<open>m\<close>
  is applied.  The definitions below follow that wording on the same state
  record: \<open>first_min\<close> is the lowest index that holds the row's minimum,
  \<open>add_member\<close> adds an index to the member list of one cluster, and
  \<open>four_case_rule\<close> is the rule, whose last case takes no action.
\<close>

definition first_min :: "'a::linorder list \<Rightarrow> nat" where
  "first_min row = length (takeWhile (\<lambda>x. x \<noteq> Min (set row)) row)"

definition add_member :: "(int \<times> nat list) list \<Rightarrow> int \<Rightarrow> nat \<Rightarrow> (int \<times> nat list) list" where
  "add_member d c x = map (\<lambda>(c', ms). if c' = c then (c', ms @ [x]) else (c', ms)) d"

definition four_case_rule :: "nat \<Rightarrow> nat \<Rightarrow> resolver_state \<Rightarrow> resolver_state" where
  "four_case_rule r m s =
     (if keys s ! r = -1 \<and> keys s ! m = -1 then
        \<lparr>output_dict = output_dict s @ [(counter s, [r, m])],
         keys = (keys s)[r := counter s, m := counter s],
         counter = counter s + 1\<rparr>
      else if keys s ! r = -1 then
        s\<lparr>output_dict := add_member (output_dict s) (keys s ! m) r,
          keys := (keys s)[r := keys s ! m]\<rparr>
      else if keys s ! m = -1 then
        s\<lparr>output_dict := add_member (output_dict s) (keys s ! r) m,
          keys := (keys s)[m := keys s ! r]\<rparr>
      else s)"

definition resolve_from :: "'a::linorder list list \<Rightarrow> nat list \<Rightarrow> resolver_state \<Rightarrow> resolver_state" where
  "resolve_from matrix rs s = foldl (\<lambda>s r. four_case_rule r (first_min (matrix ! r)) s) s rs"

definition resolve :: "'a::linorder list list \<Rightarrow> resolver_state" where
  "resolve matrix =
     resolve_from matrix [0..<length matrix]
       \<lparr>output_dict = [], keys = replicate (length matrix) (-1), counter = 0\<rparr>"

text \<open>A distance matrix over \<open>n\<close> items has \<open>n\<close> rows of \<open>n\<close> entries.\<close>

definition square :: "'a list list \<Rightarrow> bool" where
  "square matrix \<longleftrightarrow> (\<forall>row \<in> set matrix. length row = length matrix)"

text \<open>
  The invariant of the resolver's loop: the cluster ids allocated so far are
  \<open>0, \<dots>, counter - 1\<close> in allocation order, every owner is \<open>-1\<close> or an allocated
  id, and the member list of cluster \<open>c\<close> holds exactly the indices owned by \<open>c\<close>.
  \<open>members_distinct\<close> says that no member list repeats an index.
\<close>

definition resolver_inv :: "resolver_state \<Rightarrow> bool" where
  "resolver_inv s \<longleftrightarrow>
     0 \<le> counter s \<and>
     map fst (output_dict s) = map int [0..<nat (counter s)] \<and>
     (\<forall>i<length (keys s). keys s ! i = -1 \<or> (0 \<le> keys s ! i \<and> keys s ! i < counter s)) \<and>
     (\<forall>(c, ms) \<in> set (output_dict s). ms \<noteq> [] \<and> set ms = {i. i < length (keys s) \<and> keys s ! i = c})"

definition members_distinct :: "resolver_state \<Rightarrow> bool" where
  "members_distinct s \<longleftrightarrow> (\<forall>(c, ms) \<in> set (output_dict s). distinct ms)"

section \<open>The distance matrix builder (ReID.compute\_distances)\<close>

text \<open>
  \<open>compute_distances\<close> embeds the query image and then, one by one, every
  gallery image with the traced network and takes one minus the cosine
  similarity of the two embeddings.  The network and the similarity are not
  part of the repository: \<open>model\<close> maps a preprocessed image to its embedding or
  raises, and \<open>cosine_distance\<close> is one minus the cosine similarity of two
  embeddings.  With \<open>is_duplicate\<close> set, the entry at the first minimum of the
  row is overwritten with the entry at the first maximum; on an empty gallery
  \<open>argmax\<close> and \<open>argmin\<close> raise.
\<close>

fun gallery_distances :: "('i \<Rightarrow> io_error + 'e) \<Rightarrow> ('e \<Rightarrow> 'e \<Rightarrow> 'a) \<Rightarrow> 'e \<Rightarrow> 'i list \<Rightarrow> 'a list \<Rightarrow>
    io_error + 'a list" where
  "gallery_distances model cosine_distance query_embedding [] list_of_dist = Inr list_of_dist"
| "gallery_distances model cosine_distance query_embedding (gallery_image # rest) list_of_dist =
     (case model gallery_image of
        Inl e \<Rightarrow> Inl e
      | Inr gallery_embedding \<Rightarrow>
          gallery_distances model cosine_distance query_embedding rest
            (list_of_dist @ [cosine_distance query_embedding gallery_embedding]))"

definition compute_distances :: "('i \<Rightarrow> io_error + 'e) \<Rightarrow> ('e \<Rightarrow> 'e \<Rightarrow> 'a::linorder) \<Rightarrow> 'i \<Rightarrow> 'i list \<Rightarrow> bool \<Rightarrow>
    io_error + 'a list" where
  "compute_distances model cosine_distance query_image gallery_images is_duplicate =
     (case model query_image of
        Inl e \<Rightarrow> Inl e
      | Inr query_embedding \<Rightarrow>
          (case gallery_distances model cosine_distance query_embedding gallery_images [] of
             Inl e \<Rightarrow> Inl e
           | Inr list_of_dist \<Rightarrow>
               if is_duplicate then
                 (case np_argmax list_of_dist of
                    Inl e \<Rightarrow> Inl (Raised e)
                  | Inr hi \<Rightarrow>
                      (case np_argmin list_of_dist of
                         Inl e \<Rightarrow> Inl (Raised e)
                       | Inr lo \<Rightarrow> Inr (list_of_dist[lo := list_of_dist ! hi])))
               else Inr list_of_dist))"

section \<open>The result assembler (ReID.format\_output\_dict)\<close>

subsection \<open>Python's str on integers and split on strings\<close>

text \<open>
  \<open>str(id)\<close> of an integer is its decimal numeral, with a minus sign for a
  negative number.  \<open>path.split("/")\<close> cuts a string at every slash and always
  returns at least one piece, so \<open>[-1]\<close> on its result is the last piece.
\<close>

definition digit_char :: "nat \<Rightarrow> char" where
  "digit_char d = ''0123456789'' ! d"

fun str_nat :: "nat \<Rightarrow> string" where
  "str_nat n = (if n < 10 then [digit_char n] else str_nat (n div 10) @ [digit_char (n mod 10)])"

declare str_nat.simps [simp del]

definition str_int :: "int \<Rightarrow> string" where
  "str_int i = (if i < 0 then CHR ''-'' # str_nat (nat (- i)) else str_nat (nat i))"

fun split_char :: "char \<Rightarrow> string \<Rightarrow> string list" where
  "split_char sep [] = [[]]"
| "split_char sep (c # cs) =
     (if c = sep then [] # split_char sep cs
      else (case split_char sep cs of
              [] \<Rightarrow> [[c]]
            | w # ws \<Rightarrow> (c # w) # ws))"

text \<open>Reading a decimal numeral back, used to show that \<open>str\<close> is injective.\<close>

definition digit_val :: "char \<Rightarrow> nat" where
  "digit_val c = of_char c - 48"

definition nat_of_digits :: "string \<Rightarrow> nat" where
  "nat_of_digits cs = foldl (\<lambda>a c. 10 * a + digit_val c) 0 cs"

subsection \<open>format\_output\_dict\<close>

text \<open>
  The first loop reduces every path to its last component.  The second loop
  walks the resolver's dictionary in insertion order; for each cluster it
  builds the label \<open>"ID-" + str(id)\<close>, translates each member through
  \<open>image_names[img]\<close> (an \<open>IndexError\<close> when the member is out of range) and
  stores the list under the label unless the label is already present.
\<close>

fun lookup_names :: "string list \<Rightarrow> nat list \<Rightarrow> py_error + string list" where
  "lookup_names image_names [] = Inr []"
| "lookup_names image_names (img # imgs) =
     (if length image_names \<le> img then Inl IndexError
      else (case lookup_names image_names imgs of
              Inl e \<Rightarrow> Inl e
            | Inr rest \<Rightarrow> Inr (image_names ! img # rest)))"

fun format_clusters :: "string list \<Rightarrow> (int \<times> nat list) list \<Rightarrow> (string \<times> string list) list \<Rightarrow>
    py_error + (string \<times> string list) list" where
  "format_clusters image_names [] output_dict_with_filenames = Inr output_dict_with_filenames"
| "format_clusters image_names ((ident, list_of_imgs) # rest) output_dict_with_filenames =
     (let label = ''ID-'' @ str_int ident
      in case lookup_names image_names list_of_imgs of
           Inl e \<Rightarrow> Inl e
         | Inr list_of_img_names \<Rightarrow>
             format_clusters image_names rest
               (if \<not> dict_contains output_dict_with_filenames label
                then dict_set output_dict_with_filenames label list_of_img_names
                else output_dict_with_filenames))"

definition format_output_dict :: "string list \<Rightarrow> (int \<times> nat list) list \<Rightarrow> py_error + (string \<times> string list) list" where
  "format_output_dict image_paths id_dict =
     (let image_names = map (\<lambda>img_path. last (split_char CHR ''/'' img_path)) image_paths
      in format_clusters image_names id_dict [])"

text \<open>
  The entry the assembler is documented to produce for one cluster: the label
  from the cluster id, and the references of the members in the member list's
  order.
\<close>

definition assemble_entry :: "string list \<Rightarrow> int \<times> nat list \<Rightarrow> string \<times> string list" where
  "assemble_entry image_paths cl =
     (''ID-'' @ str_int (fst cl), map (\<lambda>i. last (split_char CHR ''/'' (image_paths ! i))) (snd cl))"

section \<open>Python floats\<close>

text \<open>
  A Python \<open>float\<close> is an IEEE 754 double.  A finite double is modelled by the
  rational number it denotes, and every arithmetic operation rounds its exact
  result to the nearest double, ties to the even significand.  The exponent is
  unbounded here: overflow and subnormal numbers are not modelled; the quotients
  and products of the modelled code stay far inside the normal range.
  \<open>binary_exponent x\<close> is the \<open>e\<close> with \<open>2\<^sup>e \<le> |x| < 2\<^sup>e\<^sup>+\<^sup>1\<close>, and a double with that
  exponent is a multiple of \<open>2\<^sup>e\<^sup>-\<^sup>5\<^sup>2\<close>.
\<close>

definition round_half_even :: "rat \<Rightarrow> int" where
  "round_half_even x =
     (let k = \<lfloor>x\<rfloor>; f = x - of_int k
      in if f < 1/2 then k else if 1/2 < f then k + 1 else if even k then k else k + 1)"

definition binary_exponent :: "rat \<Rightarrow> int" where
  "binary_exponent x =
     (let a = fst (quotient_of \<bar>x\<bar>); b = snd (quotient_of \<bar>x\<bar>); e = bitlen a - bitlen b
      in if 2 powi e \<le> \<bar>x\<bar> then e else e - 1)"

definition round_double :: "rat \<Rightarrow> rat" where
  "round_double x =
     (if x = 0 then 0
      else (let u = 2 powi (binary_exponent x - 52)
            in of_int (round_half_even (x / u)) * u))"

text \<open>
  \<open>a / b\<close> on two integers is the correctly rounded quotient and raises on a zero
  divisor; an integer operand of a float operation is converted to a float
  first; \<open>int(x)\<close> truncates towards zero.
\<close>

definition int_truediv :: "int \<Rightarrow> int \<Rightarrow> py_error + rat" where
  "int_truediv a b = (if b = 0 then Inl ZeroDivisionError else Inr (round_double (of_int a / of_int b)))"

definition float_of_int :: "int \<Rightarrow> rat" where
  "float_of_int n = round_double (of_int n)"

definition float_mul :: "rat \<Rightarrow> rat \<Rightarrow> rat" where
  "float_mul x y = round_double (x * y)"

definition float_sub :: "rat \<Rightarrow> rat \<Rightarrow> rat" where
  "float_sub x y = round_double (x - y)"

definition float_div :: "rat \<Rightarrow> rat \<Rightarrow> py_error + rat" where
  "float_div x y = (if y = 0 then Inl ZeroDivisionError else Inr (round_double (x / y)))"

definition py_int :: "rat \<Rightarrow> int" where
  "py_int x = (if 0 \<le> x then \<lfloor>x\<rfloor> else \<lceil>x\<rceil>)"

section \<open>Identity resolution end to end (ReID.main)\<close>

text \<open>
  The progress value of the loop in \<open>main\<close>:
  \<open>int((index + 1) / len(image_path_list) * 100)\<close>, a true division of two
  integers, a float multiplication by the integer 100 and a truncation.
\<close>

definition progress_percent :: "nat \<Rightarrow> nat \<Rightarrow> py_error + int" where
  "progress_percent index n =
     (case int_truediv (int index + 1) (int n) of
        Inl e \<Rightarrow> Inl e
      | Inr q \<Rightarrow> Inr (py_int (float_mul q (float_of_int 100))))"

text \<open>
  What \<open>main\<close> takes from outside the repository: reading the configuration
  and loading the traced network, which gives the network or raises; opening an
  image file, which raises on a file that is missing or is no image; the
  transformations applied to an opened image; and the cosine distance of two
  embeddings.
\<close>

record ('r, 'i, 'e, 'a) reid_platform =
  load_model :: "io_error + ('i \<Rightarrow> io_error + 'e)"
  image_open :: "string \<Rightarrow> io_error + 'r"
  image_transforms :: "'r \<Rightarrow> 'i"
  cosine_distance :: "'e \<Rightarrow> 'e \<Rightarrow> 'a"

definition load_and_preprocess_image :: "('r, 'i, 'e, 'a) reid_platform \<Rightarrow> string \<Rightarrow> io_error + 'i" where
  "load_and_preprocess_image pf file_path =
     (case image_open pf file_path of
        Inl e \<Rightarrow> Inl e
      | Inr opened \<Rightarrow> Inr (image_transforms pf opened))"

text \<open>The two loops that load every path; the first file that raises ends \<open>main\<close>.\<close>

fun load_images :: "('r, 'i, 'e, 'a) reid_platform \<Rightarrow> string list \<Rightarrow> 'i list \<Rightarrow> io_error + 'i list" where
  "load_images pf [] loaded = Inr loaded"
| "load_images pf (img_path # rest) loaded =
     (case load_and_preprocess_image pf img_path of
        Inl e \<Rightarrow> Inl e
      | Inr preprocessed \<Rightarrow> load_images pf rest (loaded @ [preprocessed]))"

text \<open>
  The loop over \<open>range(len(image_path_list))\<close>.  Its state is the distance matrix
  built so far and the values handed to the progress callback so far; the
  callback is optional (\<open>if progress_callback\<close>).  An exception ends the loop;
  the values already handed to the callback stay handed over.
\<close>

fun distance_rows :: "('i \<Rightarrow> io_error + 'e) \<Rightarrow> ('e \<Rightarrow> 'e \<Rightarrow> 'a::linorder) \<Rightarrow> 'i list \<Rightarrow> 'i list \<Rightarrow> nat \<Rightarrow> bool \<Rightarrow>
    nat list \<Rightarrow> 'a list list \<Rightarrow> int list \<Rightarrow> int list \<times> (io_error + 'a list list)" where
  "distance_rows model cos_dist query_images gallery_images n progress_callback [] distance_mat emitted =
     (emitted, Inr distance_mat)"
| "distance_rows model cos_dist query_images gallery_images n progress_callback (index # rest) distance_mat emitted =
     (case compute_distances model cos_dist (query_images ! index) gallery_images True of
        Inl e \<Rightarrow> (emitted, Inl e)
      | Inr dist_row \<Rightarrow>
          (case progress_percent index n of
             Inl e \<Rightarrow> (emitted, Inl (Raised e))
           | Inr progress \<Rightarrow>
               distance_rows model cos_dist query_images gallery_images n progress_callback rest
                 (distance_mat @ [dist_row])
                 (if progress_callback then emitted @ [progress] else emitted)))"

text \<open>
  \<open>main\<close> reads the configuration and loads the network, loads every path
  twice (query and gallery list) before the first row is computed, builds the
  matrix, resolves it and assembles the result.  The result pairs the values
  handed to the progress callback with the returned dictionary or the
  exception.
\<close>

definition reid_main :: "('r, 'i, 'e, 'a::linorder) reid_platform \<Rightarrow> string list \<Rightarrow> bool \<Rightarrow>
    int list \<times> (io_error + (string \<times> string list) list)" where
  "reid_main pf image_path_list progress_callback =
     (case load_model pf of
        Inl e \<Rightarrow> ([], Inl e)
      | Inr CARE_Model \<Rightarrow>
          (case load_images pf image_path_list [] of
             Inl e \<Rightarrow> ([], Inl e)
           | Inr query_images \<Rightarrow>
               (case load_images pf image_path_list [] of
                  Inl e \<Rightarrow> ([], Inl e)
                | Inr gallery_images \<Rightarrow>
                    (case distance_rows CARE_Model (cosine_distance pf) query_images gallery_images
                            (length image_path_list) progress_callback [0..<length image_path_list] [] [] of
                       (emitted, Inl e) \<Rightarrow> (emitted, Inl e)
                     | (emitted, Inr distance_mat) \<Rightarrow>
                         (case process_dist_mat distance_mat of
                            Inl e \<Rightarrow> (emitted, Inl (Raised e))
                          | Inr id_dict \<Rightarrow>
                              (case format_output_dict image_path_list id_dict of
                                 Inl e \<Rightarrow> (emitted, Inl (Raised e))
                               | Inr output_dict_with_names \<Rightarrow> (emitted, Inr output_dict_with_names)))))))"

text \<open>
  A small platform for concrete runs: a file is opened as its own path, except
  \<open>missing.jpg\<close>, which cannot be opened; the embedding of an image is the
  length of its path, and the distance of two embeddings is their difference.
\<close>

definition demo_reid :: "(string, string, int, int) reid_platform" where
  "demo_reid =
     \<lparr>load_model = Inr (\<lambda>img. Inr (int (length img))),
      image_open = (\<lambda>p. if p = ''missing.jpg'' then Inl FileNotFoundError else Inr p),
      image_transforms = (\<lambda>opened. opened),
      cosine_distance = (\<lambda>a b. \<bar>a - b\<bar>)\<rparr>"

text \<open>The progress value where the division does not raise.\<close>

definition progress_value :: "nat \<Rightarrow> nat \<Rightarrow> int" where
  "progress_value index n =
     py_int (float_mul (round_double (of_int (int index + 1) / of_int (int n))) (float_of_int 100))"

section \<open>Detection (detection.make\_inference\_detection and detection.main)\<close>

text \<open>
  What the detector network returns for one image: the table from class index
  to class name, and one entry per detected box with its corner coordinates,
  its confidence and its class index (a float in the tensor).  The network itself
  is outside the repository and is a parameter of the functions below.
\<close>

type_synonym bbox = "rat \<times> rat \<times> rat \<times> rat"

record box =
  xyxy :: bbox
  conf :: rat
  cls :: rat

record prediction =
  names :: "int \<rightharpoonup> string"
  boxes :: "box list"

text \<open>
  An image is a list of pixel rows.  A Python slice \<open>xs[a:b]\<close> counts a negative
  bound from the end and clips both bounds to the length.
\<close>

definition slice_bound :: "nat \<Rightarrow> int \<Rightarrow> nat" where
  "slice_bound n a = (if a < 0 then nat (max 0 (a + int n)) else min n (nat a))"

definition py_slice :: "'p list \<Rightarrow> int \<Rightarrow> int \<Rightarrow> 'p list" where
  "py_slice xs a b = take (slice_bound (length xs) b - slice_bound (length xs) a) (drop (slice_bound (length xs) a) xs)"

text \<open>
  \<open>crop_image\<close> rounds the four coordinates (\<open>round\<close> rounds a tie to the even
  integer) and cuts \<open>image[y1:y2, x1:x2, :]\<close>.
\<close>

definition crop_image :: "'p list list \<Rightarrow> bbox \<Rightarrow> 'p list list" where
  "crop_image img bbox =
     (case bbox of (bx1, by1, bx2, by2) \<Rightarrow>
        (let x1 = round_half_even bx1; y1 = round_half_even by1;
             x2 = round_half_even bx2; y2 = round_half_even by2
         in map (\<lambda>row. py_slice row x1 x2) (py_slice img y1 y2)))"

text \<open>
  \<open>make_inference_detection\<close>.  Drawing the overlay is a sequence of OpenCV calls
  and is the parameter \<open>draw_bounding_box\<close>.  Without a box the function returns
  four times \<open>None\<close>, modelled as \<open>None\<close>.  Looking up a class index that the name
  table lacks raises \<open>KeyError\<close>.
\<close>

definition make_inference_detection ::
    "('p list list \<Rightarrow> bbox \<Rightarrow> rat \<Rightarrow> 'p list list) \<Rightarrow> ('p list list \<Rightarrow> prediction) \<Rightarrow> 'p list list \<Rightarrow>
     py_error + ('p list list \<times> 'p list list \<times> string \<times> rat) option" where
  "make_inference_detection draw_bounding_box yolo img =
     (let prediction = yolo img;
          class_dict = names prediction;
          array_of_confidences = map conf (boxes prediction);
          array_of_labels = map cls (boxes prediction)
      in if length array_of_confidences = 0 then Inr None
         else (case np_argmax array_of_confidences of
                 Inl e \<Rightarrow> Inl e
               | Inr max_conf_index \<Rightarrow>
                   (let max_conf = array_of_confidences ! max_conf_index
                    in case class_dict (py_int (array_of_labels ! max_conf_index)) of
                         None \<Rightarrow> Inl KeyError
                       | Some label \<Rightarrow>
                           (let bounding_box = map xyxy (boxes prediction) ! 0;
                                image_with_box = draw_bounding_box img bounding_box max_conf;
                                image_with_crop = crop_image img bounding_box
                            in Inr (Some (image_with_box, image_with_crop, label, max_conf))))))"

text \<open>
  \<open>detection.main\<close> raises \<open>FileNotFoundError\<close> when the weights file is missing
  and keeps, in input order, the results of the images that have a detection.
\<close>

fun detect_images ::
    "('p list list \<Rightarrow> bbox \<Rightarrow> rat \<Rightarrow> 'p list list) \<Rightarrow> ('p list list \<Rightarrow> prediction) \<Rightarrow> 'p list list list \<Rightarrow>
     ('p list list \<times> 'p list list \<times> string \<times> rat) list \<Rightarrow>
     io_error + ('p list list \<times> 'p list list \<times> string \<times> rat) list" where
  "detect_images draw_bounding_box yolo [] image_with_boxes = Inr image_with_boxes"
| "detect_images draw_bounding_box yolo (img # images) image_with_boxes =
     (case make_inference_detection draw_bounding_box yolo img of
        Inl e \<Rightarrow> Inl (Raised e)
      | Inr None \<Rightarrow> detect_images draw_bounding_box yolo images image_with_boxes
      | Inr (Some found) \<Rightarrow> detect_images draw_bounding_box yolo images (image_with_boxes @ [found]))"

definition detection_main ::
    "bool \<Rightarrow> ('p list list \<Rightarrow> bbox \<Rightarrow> rat \<Rightarrow> 'p list list) \<Rightarrow> ('p list list \<Rightarrow> prediction) \<Rightarrow> 'p list list list \<Rightarrow>
     io_error + ('p list list \<times> 'p list list \<times> string \<times> rat) list" where
  "detection_main model_file_exists draw_bounding_box yolo images =
     (if \<not> model_file_exists then Inl FileNotFoundError
      else detect_images draw_bounding_box yolo images [])"

section \<open>The extraction orchestrator (UploadPage)\<close>

text \<open>
  The size of the process pool: half the cores, and one on a single core.
\<close>

definition max_workers :: "nat \<Rightarrow> nat" where
  "max_workers num_cores = (if 1 < num_cores then num_cores div 2 else 1)"

text \<open>
  What a call of \<open>process_image_func\<close> takes from outside the repository:
  the image files as they are when the call starts (\<open>cv2.imread\<close> gives \<open>None\<close>
  for a file it cannot read), whether the detector's weights file is there, the
  detector, the overlay drawing, the formatted current time, the formatting of
  a confidence with three decimals, the path functions of the operating
  system, whether \<open>cv2.imwrite\<close> gets a file written, the image that is read
  back from a written JPEG file, \<open>cv2.resize\<close>, and the creation of a
  directory, which may raise.
\<close>

record 'p platform =
  cv2_imread :: "string \<Rightarrow> 'p list list option"
  weights_exist :: bool
  detector :: "'p list list \<Rightarrow> prediction"
  overlay :: "'p list list \<Rightarrow> bbox \<Rightarrow> rat \<Rightarrow> 'p list list"
  now_stamp :: string
  fmt_confidence :: "rat \<Rightarrow> string"
  os_path_join :: "string \<Rightarrow> string list \<Rightarrow> string"
  os_path_basename :: "string \<Rightarrow> string"
  os_path_splitext :: "string \<Rightarrow> string \<times> string"
  os_path_exists :: "string \<Rightarrow> bool"
  os_makedirs :: "string \<Rightarrow> io_error option"
  can_write :: "string \<Rightarrow> bool"
  jpeg_read_back :: "'p list list \<Rightarrow> 'p list list"
  cv2_resize :: "'p list list \<Rightarrow> nat \<times> nat \<Rightarrow> 'p list list"

text \<open>
  An image without rows or without columns is empty.  \<open>cv2.imwrite\<close> raises on
  an empty image; otherwise it writes the file when it can and returns without
  an exception when it cannot.  The files are a map from paths to the images
  read from them.
\<close>

definition image_empty :: "'p list list \<Rightarrow> bool" where
  "image_empty img = (case img of [] \<Rightarrow> True | row # rows \<Rightarrow> row = [])"

definition cv2_imwrite :: "'p platform \<Rightarrow> (string \<Rightarrow> 'p list list option) \<Rightarrow> string \<Rightarrow> 'p list list \<Rightarrow>
    io_error + (string \<Rightarrow> 'p list list option)" where
  "cv2_imwrite pf files filename img =
     (if image_empty img then Inl Cv2Error
      else if can_write pf filename then Inr (files(filename := Some (jpeg_read_back pf img)))
      else Inr files)"

text \<open>
  \<open>generate_thumbnail\<close> reads the image back from the given path, resizes it
  to 150 by 150 (\<open>cv2.resize\<close> raises when the file could not be read), creates
  the thumbnail directory when it is not there, and writes the thumbnail under
  the file name of the image.
\<close>

definition generate_thumbnail :: "'p platform \<Rightarrow> (string \<Rightarrow> 'p list list option) \<Rightarrow> string \<Rightarrow> string \<Rightarrow>
    io_error + (string \<times> (string \<Rightarrow> 'p list list option))" where
  "generate_thumbnail pf files image_path thumbnail_dir =
     (case files image_path of
        None \<Rightarrow> Inl Cv2Error
      | Some img \<Rightarrow>
          if image_empty img then Inl Cv2Error
          else (let thumbnail = cv2_resize pf img (150, 150)
                in case (if \<not> os_path_exists pf thumbnail_dir then os_makedirs pf thumbnail_dir else None) of
                     Some e \<Rightarrow> Inl e
                   | None \<Rightarrow>
                       (let filename = os_path_basename pf image_path;
                            thumbnail_path = os_path_join pf thumbnail_dir [filename]
                        in case cv2_imwrite pf files thumbnail_path thumbnail of
                             Inl e \<Rightarrow> Inl e
                           | Inr written \<Rightarrow> Inr (thumbnail_path, written))))"

text \<open>
  \<open>process_image_func\<close> returns \<open>None\<close> when the image cannot be read or the
  detector finds nothing.  Otherwise it writes the overlay and the crop, makes
  the thumbnail of the overlay, and returns the two artifact paths, the
  confidence and the group name with the label appended after a space.  An
  exception of the detection, of a write or of the thumbnail propagates.  The
  files written are not part of the value handed back to the worker.
\<close>

definition process_image_func :: "'p platform \<Rightarrow> nat \<Rightarrow> string \<Rightarrow> string \<Rightarrow> string \<Rightarrow> string \<Rightarrow>
    io_error + (string \<times> string \<times> rat \<times> string) option" where
  "process_image_func pf index image_path temp_images_dir group_name user =
     (let loaded_image = cv2_imread pf image_path;
          image_filename = os_path_basename pf image_path;
          image_name = fst (os_path_splitext pf image_filename)
      in case loaded_image of
           None \<Rightarrow> Inr None
         | Some loaded \<Rightarrow>
             (case detection_main (weights_exist pf) (overlay pf) (detector pf) [loaded] of
                Inl e \<Rightarrow> Inl e
              | Inr [] \<Rightarrow> Inr None
              | Inr ((bbox_image, cropped, label, confidence) # others) \<Rightarrow>
                  (let upload_date = now_stamp pf;
                       confidence_str = fmt_confidence pf confidence;
                       bbox_image_path = os_path_join pf temp_images_dir [''bbox_images'',
                         ''bbox_'' @ user @ ''_'' @ upload_date @ ''_'' @ confidence_str @ ''_'' @ image_name @ ''.jpg''];
                       crop_image_path = os_path_join pf temp_images_dir [''crop_images'',
                         ''crop_'' @ user @ ''_'' @ upload_date @ ''_'' @ confidence_str @ ''_'' @ image_name @ ''.jpg'']
                   in case cv2_imwrite pf (cv2_imread pf) bbox_image_path bbox_image of
                        Inl e \<Rightarrow> Inl e
                      | Inr files1 \<Rightarrow>
                          (case cv2_imwrite pf files1 crop_image_path cropped of
                             Inl e \<Rightarrow> Inl e
                           | Inr files2 \<Rightarrow>
                               (let thumbnail_dir = os_path_join pf temp_images_dir [''thumbnails'']
                                in case generate_thumbnail pf files2 bbox_image_path thumbnail_dir of
                                     Inl e \<Rightarrow> Inl e
                                   | Inr (thumbnail_path, files3) \<Rightarrow>
                                       Inr (Some (bbox_image_path, crop_image_path, confidence,
                                                  group_name @ '' '' @ label)))))))"

text \<open>
  \<open>s.rsplit(' ', 1)\<close> cuts a string at its last space and returns the string
  itself when it has none; the pages that store the results take element 0 of
  it as the group name.
\<close>

definition py_rsplit1 :: "char \<Rightarrow> string \<Rightarrow> string list" where
  "py_rsplit1 sep s =
     (if sep \<in> set s
      then [rev (drop 1 (dropWhile (\<lambda>c. c \<noteq> sep) (rev s))), rev (takeWhile (\<lambda>c. c \<noteq> sep) (rev s))]
      else [s])"

subsection \<open>Progress reports\<close>

text \<open>
  Python's \<open>%\<close> and \<open>//\<close> on floats, as the interpreter computes them: the C
  function \<open>fmod\<close> is exact and has the sign of the dividend; the remainder is
  moved to the sign of the divisor; the quotient is \<open>(x - mod) / y\<close>, lowered by
  one when the remainder was moved, and then snapped to the nearest integer
  below.
\<close>

definition c_fmod :: "rat \<Rightarrow> rat \<Rightarrow> rat" where
  "c_fmod x y = x - y * of_int (py_int (x / y))"

definition float_mod :: "rat \<Rightarrow> rat \<Rightarrow> py_error + rat" where
  "float_mod x y =
     (if y = 0 then Inl ZeroDivisionError
      else (let m = c_fmod x y
            in Inr (if m \<noteq> 0 \<and> ((y < 0) \<noteq> (m < 0)) then round_double (m + y) else m)))"

definition float_floordiv :: "rat \<Rightarrow> rat \<Rightarrow> py_error + rat" where
  "float_floordiv x y =
     (if y = 0 then Inl ZeroDivisionError
      else (let m = c_fmod x y;
                d = round_double (round_double (x - m) / y);
                d' = (if m \<noteq> 0 \<and> ((y < 0) \<noteq> (m < 0)) then round_double (d - 1) else d)
            in Inr (if d' \<noteq> 0
                    then (let f = of_int \<lfloor>d'\<rfloor> in if 1/2 < d' - f then round_double (f + 1) else f)
                    else 0)))"

text \<open>
  The estimate of one loop iteration: the elapsed time is the clock reading minus
  the start time, the average divides it by the number of images collected so
  far, and the estimate multiplies the average by the number of images left.
\<close>

definition remaining_time :: "rat \<Rightarrow> rat \<Rightarrow> nat \<Rightarrow> nat \<Rightarrow> py_error + rat" where
  "remaining_time start_time now_time i total_images =
     (let elapsed_time = float_sub now_time start_time;
          images_processed = int i + 1
      in case float_div elapsed_time (float_of_int images_processed) of
           Inl e \<Rightarrow> Inl e
         | Inr avg_time_per_image \<Rightarrow>
             Inr (float_mul avg_time_per_image (float_of_int (int total_images - images_processed))))"

definition remaining_time_str :: "nat \<Rightarrow> nat \<Rightarrow> rat \<Rightarrow> py_error + string" where
  "remaining_time_str i total_images remaining =
     (case float_floordiv remaining (float_of_int 60) of
        Inl e \<Rightarrow> Inl e
      | Inr minutes \<Rightarrow>
          (case float_mod remaining (float_of_int 60) of
             Inl e \<Rightarrow> Inl e
           | Inr seconds \<Rightarrow>
               Inr (''Processing image '' @ str_int (int i + 1) @ '' of '' @ str_int (int total_images) @
                    ''. Estimated remaining time: '' @ str_int (py_int minutes) @ ''m '' @
                    str_int (py_int seconds) @ ''s'')))"

subsection \<open>ImageProcessingWorker.run\<close>

text \<open>
  The worker's state: the results kept so far and the progress signals emitted
  so far.  The loop walks the futures in submission order; \<open>future.result()\<close>
  re-raises an exception of its call, which ends the run; a result that is
  \<open>None\<close> is not kept, and every iteration emits one progress signal.
  \<open>clock i\<close> is the reading of \<open>time.time()\<close> in iteration \<open>i\<close>.  The loop
  returns the state it reached and the exception that ended it, if any: the
  signals emitted before an exception stay emitted.
\<close>

record worker_state =
  processed_images :: "(string \<times> string \<times> rat \<times> string) list"
  progress_emitted :: "(int \<times> string) list"

fun collect_futures :: "rat \<Rightarrow> (nat \<Rightarrow> rat) \<Rightarrow> nat \<Rightarrow> nat \<Rightarrow>
    (io_error + (string \<times> string \<times> rat \<times> string) option) list \<Rightarrow> worker_state \<Rightarrow>
    worker_state \<times> io_error option" where
  "collect_futures start_time clock total_images i [] s = (s, None)"
| "collect_futures start_time clock total_images i (future # futures) s =
     (case future of
        Inl e \<Rightarrow> (s, Some e)
      | Inr result \<Rightarrow>
          (let kept = (case result of None \<Rightarrow> processed_images s
                       | Some r \<Rightarrow> processed_images s @ [r])
           in case remaining_time start_time (clock i) i total_images of
                Inl e \<Rightarrow> (s\<lparr>processed_images := kept\<rparr>, Some (Raised e))
              | Inr remaining \<Rightarrow>
                  (case remaining_time_str i total_images remaining of
                     Inl e \<Rightarrow> (s\<lparr>processed_images := kept\<rparr>, Some (Raised e))
                   | Inr remaining_time_string \<Rightarrow>
                       collect_futures start_time clock total_images (Suc i) futures
                         \<lparr>processed_images = kept,
                          progress_emitted = progress_emitted s @ [(int i + 1, remaining_time_string)]\<rparr>)))"

text \<open>
  The pool runs the submitted calls in \<open>workers\<close> processes.  What a call finds
  outside (the clock, the files) depends on when it runs, and so on the size of
  the pool and on the task: \<open>world workers index\<close> is the platform as the call
  of task \<open>index\<close> finds it in a pool of \<open>workers\<close> processes.  One call of
  \<open>process_image_func\<close> is submitted per image, with the image's position, its
  path and its group name.
\<close>

definition submit_all :: "(nat \<Rightarrow> nat \<Rightarrow> 'p platform) \<Rightarrow> nat \<Rightarrow> (string \<times> 'x \<times> 'y \<times> string) list \<Rightarrow> string \<Rightarrow> string \<Rightarrow>
    (io_error + (string \<times> string \<times> rat \<times> string) option) list" where
  "submit_all world workers images temp_images_dir user =
     map (\<lambda>(index, (image_path, _, _, group_name)).
            process_image_func (world workers index) index image_path temp_images_dir group_name user)
         (enumerate 0 images)"

text \<open>
  \<open>run\<close> creates the pool with \<open>max_workers\<close> processes, which raises
  \<open>ValueError\<close> for a size that is not positive, submits the calls and collects
  them.
\<close>

definition worker_run :: "(nat \<Rightarrow> nat \<Rightarrow> 'p platform) \<Rightarrow> nat \<Rightarrow> rat \<Rightarrow> (nat \<Rightarrow> rat) \<Rightarrow>
    (string \<times> 'x \<times> 'y \<times> string) list \<Rightarrow> string \<Rightarrow> string \<Rightarrow> worker_state \<times> io_error option" where
  "worker_run world num_cores start_time clock images temp_images_dir user =
     (if max_workers num_cores = 0
      then (\<lparr>processed_images = [], progress_emitted = []\<rparr>, Some (Raised ValueError))
      else collect_futures start_time clock (length images) 0
             (submit_all world (max_workers num_cores) images temp_images_dir user)
             \<lparr>processed_images = [], progress_emitted = []\<rparr>)"



text \<open>
  A small platform for concrete runs: the file \<open>bad.jpg\<close> cannot be read, every
  other file is a two by two image in which the detector finds one box of the
  given class with confidence 0.9; every file can be written and is read back
  as it was written, and every directory is there.  In \<open>demo_world\<close> every call
  finds this platform.
\<close>

definition demo_platform :: "string \<Rightarrow> nat platform" where
  "demo_platform class_name =
     \<lparr>cv2_imread = (\<lambda>p. if p = ''bad.jpg'' then None else Some [[0, 1], [2, 3]]),
      weights_exist = True,
      detector = (\<lambda>img. \<lparr>names = [0 \<mapsto> class_name],
                            boxes = [\<lparr>xyxy = (0, 0, 1, 1), conf = 9/10, cls = 0\<rparr>]\<rparr>),
      overlay = (\<lambda>img b c. img),
      now_stamp = ''20240101_000000'',
      fmt_confidence = (\<lambda>c. ''0.900''),
      os_path_join = (\<lambda>a ps. foldl (\<lambda>acc p. acc @ ''/'' @ p) a ps),
      os_path_basename = (\<lambda>p. last (split_char CHR ''/'' p)),
      os_path_splitext = (\<lambda>f. (takeWhile (\<lambda>c. c \<noteq> CHR ''.'') f, dropWhile (\<lambda>c. c \<noteq> CHR ''.'') f)),
      os_path_exists = (\<lambda>p. True),
      os_makedirs = (\<lambda>p. None),
      can_write = (\<lambda>p. True),
      jpeg_read_back = (\<lambda>img. img),
      cv2_resize = (\<lambda>img (w, h). replicate h (replicate w (hd (hd img))))\<rparr>"



section \<open>Verification\<close>

lemma argmin_from_spec:
  assumes "bi < length pre" "pre ! bi = b" "\<forall>j<length pre. b \<le> pre ! j" "\<forall>j<bi. b < pre ! j"
    and "i = length pre"
  shows "argmin_from b bi i xs < length (pre @ xs) \<and>
         (\<forall>j<length (pre @ xs). (pre @ xs) ! argmin_from b bi i xs \<le> (pre @ xs) ! j) \<and>
         (\<forall>j<argmin_from b bi i xs. (pre @ xs) ! argmin_from b bi i xs < (pre @ xs) ! j)"
  using assms
proof (induction xs arbitrary: pre b bi i)
  case Nil
  then show ?case by simp
next
  case (Cons x xs)
  show ?case
  proof (cases "x < b")
    case True
    have "argmin_from x (length pre) (Suc (length pre)) xs < length ((pre @ [x]) @ xs) \<and>
         (\<forall>j<length ((pre @ [x]) @ xs). ((pre @ [x]) @ xs) ! argmin_from x (length pre) (Suc (length pre)) xs \<le> ((pre @ [x]) @ xs) ! j) \<and>
         (\<forall>j<argmin_from x (length pre) (Suc (length pre)) xs. ((pre @ [x]) @ xs) ! argmin_from x (length pre) (Suc (length pre)) xs < ((pre @ [x]) @ xs) ! j)"
    proof (rule Cons.IH)
      show "length pre < length (pre @ [x])" by simp
      show "(pre @ [x]) ! length pre = x" by simp
      show "\<forall>j<length (pre @ [x]). x \<le> (pre @ [x]) ! j"
        using True Cons.prems(3) by (auto simp: nth_append less_Suc_eq intro: less_imp_le order.trans)
      show "\<forall>j<length pre. x < (pre @ [x]) ! j"
        using True Cons.prems(3) by (auto simp: nth_append intro: less_le_trans)
      show "Suc (length pre) = length (pre @ [x])" by simp
    qed
    then show ?thesis using True Cons.prems(5) by simp
  next
    case False
    have "argmin_from b bi (Suc (length pre)) xs < length ((pre @ [x]) @ xs) \<and>
         (\<forall>j<length ((pre @ [x]) @ xs). ((pre @ [x]) @ xs) ! argmin_from b bi (Suc (length pre)) xs \<le> ((pre @ [x]) @ xs) ! j) \<and>
         (\<forall>j<argmin_from b bi (Suc (length pre)) xs. ((pre @ [x]) @ xs) ! argmin_from b bi (Suc (length pre)) xs < ((pre @ [x]) @ xs) ! j)"
    proof (rule Cons.IH)
      show "bi < length (pre @ [x])" using Cons.prems(1) by simp
      show "(pre @ [x]) ! bi = b" using Cons.prems(1,2) by (simp add: nth_append)
      show "\<forall>j<length (pre @ [x]). b \<le> (pre @ [x]) ! j"
        using False Cons.prems(3) by (auto simp: nth_append less_Suc_eq)
      show "\<forall>j<bi. b < (pre @ [x]) ! j"
        using Cons.prems(1,4) by (auto simp: nth_append)
      show "Suc (length pre) = length (pre @ [x])" by simp
    qed
    then show ?thesis using False Cons.prems(5) by simp
  qed
qed

lemma np_argmin_spec:
  assumes "xs \<noteq> []"
  shows "\<exists>m. np_argmin xs = Inr m \<and> m < length xs \<and> (\<forall>j<length xs. xs ! m \<le> xs ! j) \<and> (\<forall>j<m. xs ! m < xs ! j)"
proof -
  obtain x rest where xs: "xs = x # rest" using assms by (cases xs) auto
  have "argmin_from x 0 1 rest < length ([x] @ rest) \<and>
         (\<forall>j<length ([x] @ rest). ([x] @ rest) ! argmin_from x 0 1 rest \<le> ([x] @ rest) ! j) \<and>
         (\<forall>j<argmin_from x 0 1 rest. ([x] @ rest) ! argmin_from x 0 1 rest < ([x] @ rest) ! j)"
    by (rule argmin_from_spec) auto
  then show ?thesis unfolding xs by (simp add: np_argmin_def)
qed

lemma np_argmin_empty: "np_argmin [] = Inl ValueError"
  by (simp add: np_argmin_def)

lemma first_min_spec:
  assumes "xs \<noteq> []"
  shows "first_min xs < length xs \<and> (\<forall>j<length xs. xs ! first_min xs \<le> xs ! j) \<and> (\<forall>j<first_min xs. xs ! first_min xs < xs ! j)"
proof -
  let ?P = "\<lambda>x. x \<noteq> Min (set xs)"
  have "Min (set xs) \<in> set xs" using assms by (simp add: Min_in)
  then have "takeWhile ?P xs \<noteq> xs"
    by (metis (mono_tags, lifting) takeWhile_eq_all_conv)
  then have lt: "first_min xs < length xs"
    unfolding first_min_def using length_takeWhile_le[of ?P xs]
    by (metis le_neq_implies_less takeWhile_eq_take take_all_iff order_refl)
  have at: "xs ! first_min xs = Min (set xs)"
    using lt nth_length_takeWhile[of ?P xs] unfolding first_min_def by auto
  have before: "\<forall>j<first_min xs. xs ! j \<noteq> Min (set xs)"
  proof (intro allI impI)
    fix j assume j: "j < first_min xs"
    then have "takeWhile ?P xs ! j \<in> set (takeWhile ?P xs)"
      unfolding first_min_def by simp
    then have "?P (takeWhile ?P xs ! j)" by (rule set_takeWhileD[THEN conjunct2])
    then show "xs ! j \<noteq> Min (set xs)"
      using j takeWhile_nth[of j ?P xs] unfolding first_min_def by simp
  qed
  have le: "\<forall>j<length xs. Min (set xs) \<le> xs ! j" by simp
  show ?thesis using lt at before le
    by (metis less_le_trans order.strict_iff_order)
qed

lemma first_min_unique:
  fixes xs :: "'a::linorder list"
  assumes "m < length xs" "\<forall>j<length xs. xs ! m \<le> xs ! j" "\<forall>j<m. xs ! m < xs ! j"
    and "m' < length xs" "\<forall>j<length xs. xs ! m' \<le> xs ! j" "\<forall>j<m'. xs ! m' < xs ! j"
  shows "m = m'"
  using assms by (metis linorder_neqE_nat not_less)

lemma np_argmin_first_min: "xs \<noteq> [] \<Longrightarrow> np_argmin xs = Inr (first_min xs)"
  using np_argmin_spec[of xs] first_min_spec[of xs] first_min_unique[of _ xs "first_min xs"]
  by blast

lemma dict_set_fresh: "k \<notin> fst ` set d \<Longrightarrow> dict_set d k v = d @ [(k, v)]"
  by (induction d) auto

lemma add_member_absent: "c \<notin> fst ` set d \<Longrightarrow> add_member d c x = d"
  by (induction d) (auto simp: add_member_def)

lemma dict_append_present:
  "c \<in> fst ` set d \<Longrightarrow> distinct (map fst d) \<Longrightarrow> dict_append d c x = Inr (add_member d c x)"
proof (induction d)
  case Nil
  then show ?case by simp
next
  case (Cons p d)
  obtain k vs where p: "p = (k, vs)" by (cases p)
  show ?case
  proof (cases "k = c")
    case True
    then have "c \<notin> fst ` set d" using Cons.prems(2) p by auto
    then have "add_member d c x = d" by (rule add_member_absent)
    then show ?thesis using True p by (simp add: add_member_def)
  next
    case False
    then have "c \<in> fst ` set d" using Cons.prems(1) p by auto
    moreover have "distinct (map fst d)" using Cons.prems(2) by simp
    ultimately have "dict_append d c x = Inr (add_member d c x)" by (rule Cons.IH)
    then show ?thesis using False p by (simp add: add_member_def)
  qed
qed

lemma dict_append_last:
  "c \<notin> fst ` set d \<Longrightarrow> dict_append (d @ [(c, ms)]) c x = Inr (d @ [(c, ms @ [x])])"
  by (induction d) auto

lemma map_fst_add_member: "map fst (add_member d c x) = map fst d"
  by (induction d) (auto simp: add_member_def)

lemma set_add_member:
  "set (add_member d c x) = (\<lambda>(c', ms). if c' = c then (c', ms @ [x]) else (c', ms)) ` set d"
  by (simp add: add_member_def)

lemma inv_key_present:
  assumes "resolver_inv s" "i < length (keys s)" "keys s ! i \<noteq> -1"
  shows "keys s ! i \<in> fst ` set (output_dict s)"
proof -
  from assms have b: "0 \<le> keys s ! i" "keys s ! i < counter s"
    unfolding resolver_inv_def by auto
  then have "keys s ! i \<in> int ` {0..<nat (counter s)}"
    by (intro image_eqI[where x = "nat (keys s ! i)"]) auto
  also have "\<dots> = set (map fst (output_dict s))"
    using assms(1) unfolding resolver_inv_def by simp
  finally show ?thesis by simp
qed

lemma inv_counter_fresh:
  assumes "resolver_inv s"
  shows "counter s \<notin> fst ` set (output_dict s)"
proof -
  have "set (map fst (output_dict s)) = int ` {0..<nat (counter s)}"
    using assms unfolding resolver_inv_def by simp
  moreover have "counter s \<notin> int ` {0..<nat (counter s)}"
    using assms unfolding resolver_inv_def by auto
  ultimately show ?thesis by simp
qed

lemma inv_distinct_ids:
  assumes "resolver_inv s"
  shows "distinct (map fst (output_dict s))"
proof -
  have "map fst (output_dict s) = map int [0..<nat (counter s)]"
    using assms unfolding resolver_inv_def by simp
  then show ?thesis by (simp add: distinct_map)
qed

lemma resolve_row_four_case:
  assumes inv: "resolver_inv s" and r: "r < length (keys s)"
    and am: "np_argmin (dist_mat ! r) = Inr m" and m: "m < length (keys s)"
  shows "resolve_row dist_mat r s = Inr (four_case_rule r m s)"
proof -
  have fresh: "counter s \<notin> fst ` set (output_dict s)" by (rule inv_counter_fresh[OF inv])
  have dist: "distinct (map fst (output_dict s))" by (rule inv_distinct_ids[OF inv])
  consider (new) "keys s ! r = -1" "keys s ! m = -1"
    | (join_m) "keys s ! r = -1" "keys s ! m \<noteq> -1"
    | (join_r) "keys s ! r \<noteq> -1" "keys s ! m = -1"
    | (none) "keys s ! r \<noteq> -1" "keys s ! m \<noteq> -1" by blast
  then show ?thesis
  proof cases
    case new
    have "dict_append (dict_set (output_dict s) (counter s) [r]) (counter s) m
          = Inr (output_dict s @ [(counter s, [r, m])])"
      using fresh by (simp add: dict_set_fresh dict_append_last)
    then show ?thesis
      using new am m r by (simp add: resolve_row_def four_case_rule_def Let_def)
  next
    case join_m
    have "dict_append (output_dict s) (keys s ! m) r = Inr (add_member (output_dict s) (keys s ! m) r)"
      using inv_key_present[OF inv m join_m(2)] dist by (rule dict_append_present)
    then show ?thesis
      using join_m am m r by (simp add: resolve_row_def four_case_rule_def)
  next
    case join_r
    have "dict_append (output_dict s) (keys s ! r) m = Inr (add_member (output_dict s) (keys s ! r) m)"
      using inv_key_present[OF inv r join_r(1)] dist by (rule dict_append_present)
    then show ?thesis
      using join_r am m r by (simp add: resolve_row_def four_case_rule_def)
  next
    case none
    then show ?thesis
      using am m r by (simp add: resolve_row_def four_case_rule_def)
  qed
qed

lemma inv_id_range:
  assumes "resolver_inv s" "(c, ms) \<in> set (output_dict s)"
  shows "0 \<le> c \<and> c < counter s"
proof -
  have "c \<in> set (map fst (output_dict s))" using assms(2) by force
  also have "\<dots> = int ` {0..<nat (counter s)}"
    using assms(1) unfolding resolver_inv_def by simp
  finally show ?thesis by auto
qed

lemma inv_members:
  assumes "resolver_inv s" "(c, ms) \<in> set (output_dict s)"
  shows "ms \<noteq> [] \<and> set ms = {i. i < length (keys s) \<and> keys s ! i = c}"
  using assms unfolding resolver_inv_def by blast

lemma four_case_rule_inv_new:
  assumes inv: "resolver_inv s" and r: "r < length (keys s)" and m: "m < length (keys s)"
    and kr: "keys s ! r = -1" and km: "keys s ! m = -1"
  shows "resolver_inv (four_case_rule r m s)"
proof -
  let ?c = "counter s"
  let ?ks = "(keys s)[r := ?c, m := ?c]"
  have eq: "four_case_rule r m s =
      \<lparr>output_dict = output_dict s @ [(?c, [r, m])], keys = ?ks, counter = ?c + 1\<rparr>"
    using kr km by (simp add: four_case_rule_def)
  have c0: "0 \<le> ?c" using inv unfolding resolver_inv_def by simp
  have ids: "map fst (output_dict s) = map int [0..<nat ?c]"
    using inv unfolding resolver_inv_def by simp
  have rng: "\<forall>i<length (keys s). keys s ! i = -1 \<or> (0 \<le> keys s ! i \<and> keys s ! i < ?c)"
    using inv unfolding resolver_inv_def by simp
  have nth: "\<And>i. i < length (keys s) \<Longrightarrow> ?ks ! i = (if i = r \<or> i = m then ?c else keys s ! i)"
    using r m by (auto simp: nth_list_update)
  have I2: "map fst (output_dict s @ [(?c, [r, m])]) = map int [0..<nat (?c + 1)]"
    using c0 ids by (simp add: nat_add_distrib)
  have I3: "\<forall>i<length ?ks. ?ks ! i = -1 \<or> (0 \<le> ?ks ! i \<and> ?ks ! i < ?c + 1)"
  proof (intro allI impI)
    fix i assume "i < length ?ks"
    then have i: "i < length (keys s)" by simp
    show "?ks ! i = -1 \<or> (0 \<le> ?ks ! i \<and> ?ks ! i < ?c + 1)"
      using rng c0 i nth[OF i] by (cases "i = r \<or> i = m") auto
  qed
  have I4: "\<forall>(c, ms) \<in> set (output_dict s @ [(?c, [r, m])]).
              ms \<noteq> [] \<and> set ms = {i. i < length ?ks \<and> ?ks ! i = c}"
  proof (clarify)
    fix c ms assume mem: "(c, ms) \<in> set (output_dict s @ [(?c, [r, m])])"
    show "ms \<noteq> [] \<and> set ms = {i. i < length ?ks \<and> ?ks ! i = c}"
    proof (cases "(c, ms) \<in> set (output_dict s)")
      case True
      have cr: "0 \<le> c \<and> c < ?c" by (rule inv_id_range[OF inv True])
      have old: "ms \<noteq> [] \<and> set ms = {i. i < length (keys s) \<and> keys s ! i = c}"
        by (rule inv_members[OF inv True])
      have "{i. i < length ?ks \<and> ?ks ! i = c} = {i. i < length (keys s) \<and> keys s ! i = c}"
        using cr kr km nth by auto
      then show ?thesis using old by simp
    next
      case False
      then have cm: "c = ?c" "ms = [r, m]" using mem by auto
      have "keys s ! i \<noteq> ?c" if "i < length (keys s)" for i
        using rng c0 that by force
      then have "{i. i < length ?ks \<and> ?ks ! i = ?c} = {r, m}"
        using r m nth by (auto split: if_splits)
      then show ?thesis using cm by auto
    qed
  qed
  show ?thesis
    unfolding eq resolver_inv_def using c0 I2 I3 I4 by simp
qed

lemma four_case_rule_inv_join:
  assumes inv: "resolver_inv s" and a: "a < length (keys s)" and b: "b < length (keys s)"
    and ka: "keys s ! a = -1" and kb: "keys s ! b \<noteq> -1"
  shows "resolver_inv (s\<lparr>output_dict := add_member (output_dict s) (keys s ! b) a,
                          keys := (keys s)[a := keys s ! b]\<rparr>)"
proof -
  let ?c = "keys s ! b"
  let ?ks = "(keys s)[a := ?c]"
  have c0: "0 \<le> counter s" using inv unfolding resolver_inv_def by simp
  have ids: "map fst (output_dict s) = map int [0..<nat (counter s)]"
    using inv unfolding resolver_inv_def by simp
  have rng: "\<forall>i<length (keys s). keys s ! i = -1 \<or> (0 \<le> keys s ! i \<and> keys s ! i < counter s)"
    using inv unfolding resolver_inv_def by simp
  have cb: "0 \<le> ?c \<and> ?c < counter s" using rng b kb by auto
  have I3: "\<forall>i<length ?ks. ?ks ! i = -1 \<or> (0 \<le> ?ks ! i \<and> ?ks ! i < counter s)"
    using rng cb a by (auto simp: nth_list_update)
  have I4: "\<forall>(c, ms) \<in> set (add_member (output_dict s) ?c a).
              ms \<noteq> [] \<and> set ms = {i. i < length ?ks \<and> ?ks ! i = c}"
  proof (clarify)
    fix c ms assume mem: "(c, ms) \<in> set (add_member (output_dict s) ?c a)"
    then obtain ms0 where old: "(c, ms0) \<in> set (output_dict s)"
      and ms: "ms = (if c = ?c then ms0 @ [a] else ms0)"
      unfolding set_add_member by (auto split: if_splits)
    have cr: "0 \<le> c \<and> c < counter s" by (rule inv_id_range[OF inv old])
    have o: "ms0 \<noteq> [] \<and> set ms0 = {i. i < length (keys s) \<and> keys s ! i = c}"
      by (rule inv_members[OF inv old])
    show "ms \<noteq> [] \<and> set ms = {i. i < length ?ks \<and> ?ks ! i = c}"
    proof (cases "c = ?c")
      case True
      have "{i. i < length ?ks \<and> ?ks ! i = c} = insert a {i. i < length (keys s) \<and> keys s ! i = c}"
        using True a by (auto simp: nth_list_update)
      then show ?thesis using o ms True by simp
    next
      case False
      have "{i. i < length ?ks \<and> ?ks ! i = c} = {i. i < length (keys s) \<and> keys s ! i = c}"
        using False a ka cr by (auto simp: nth_list_update)
      then show ?thesis using o ms False by simp
    qed
  qed
  show ?thesis
    unfolding resolver_inv_def using c0 ids I3 I4 by (simp add: map_fst_add_member)
qed

lemma four_case_rule_inv:
  assumes inv: "resolver_inv s" and r: "r < length (keys s)" and m: "m < length (keys s)"
  shows "resolver_inv (four_case_rule r m s)"
proof -
  consider (new) "keys s ! r = -1" "keys s ! m = -1"
    | (join_m) "keys s ! r = -1" "keys s ! m \<noteq> -1"
    | (join_r) "keys s ! r \<noteq> -1" "keys s ! m = -1"
    | (none) "keys s ! r \<noteq> -1" "keys s ! m \<noteq> -1" by blast
  then show ?thesis
  proof cases
    case new
    then show ?thesis by (rule four_case_rule_inv_new[OF inv r m])
  next
    case join_m
    then show ?thesis
      using four_case_rule_inv_join[OF inv r m] by (simp add: four_case_rule_def)
  next
    case join_r
    then show ?thesis
      using four_case_rule_inv_join[OF inv m r] by (simp add: four_case_rule_def)
  next
    case none
    then show ?thesis using inv by (simp add: four_case_rule_def)
  qed
qed

lemma four_case_rule_length: "length (keys (four_case_rule r m s)) = length (keys s)"
  by (simp add: four_case_rule_def)

lemma four_case_rule_assigns:
  assumes "resolver_inv s" "r < length (keys s)" "m < length (keys s)"
  shows "keys (four_case_rule r m s) ! r \<noteq> -1"
proof -
  have "0 \<le> counter s" using assms(1) unfolding resolver_inv_def by simp
  then show ?thesis using assms(2,3)
    by (auto simp: four_case_rule_def nth_list_update)
qed

lemma four_case_rule_owner_stable:
  assumes "i < length (keys s)" "keys s ! i \<noteq> -1"
  shows "keys (four_case_rule r m s) ! i = keys s ! i"
proof -
  have "i \<noteq> r" if "keys s ! r = -1" using that assms(2) by auto
  moreover have "i \<noteq> m" if "keys s ! m = -1" using that assms(2) by auto
  ultimately show ?thesis by (auto simp: four_case_rule_def)
qed

lemma resolve_from_Nil: "resolve_from matrix [] s = s"
  by (simp add: resolve_from_def)

lemma resolve_from_Cons:
  "resolve_from matrix (r # rs) s = resolve_from matrix rs (four_case_rule r (first_min (matrix ! r)) s)"
  by (simp add: resolve_from_def)

lemma resolve_from_length: "length (keys (resolve_from matrix rs s)) = length (keys s)"
  by (induction rs arbitrary: s) (simp_all add: resolve_from_Nil resolve_from_Cons four_case_rule_length)

lemma square_row:
  assumes "square matrix" "r < length matrix"
  shows "matrix ! r \<noteq> [] \<and> first_min (matrix ! r) < length matrix"
proof -
  have len: "length (matrix ! r) = length matrix"
    using assms unfolding square_def by simp
  then have ne: "matrix ! r \<noteq> []" using assms(2) by auto
  then show ?thesis using first_min_spec[OF ne] len by simp
qed

lemma resolve_rows_refines:
  assumes "square matrix" "resolver_inv s" "length (keys s) = length matrix"
    and "\<forall>r \<in> set rs. r < length matrix"
  shows "resolve_rows matrix rs s = Inr (resolve_from matrix rs s) \<and>
         resolver_inv (resolve_from matrix rs s)"
  using assms(2-)
proof (induction rs arbitrary: s)
  case Nil
  then show ?case by (simp add: resolve_from_Nil)
next
  case (Cons r rs)
  let ?m = "first_min (matrix ! r)"
  let ?s = "four_case_rule r ?m s"
  have r: "r < length (keys s)" using Cons.prems by simp
  have row: "matrix ! r \<noteq> [] \<and> ?m < length matrix"
    using square_row[OF assms(1)] Cons.prems by simp
  then have m: "?m < length (keys s)" using Cons.prems by simp
  have am: "np_argmin (matrix ! r) = Inr ?m" using row by (simp add: np_argmin_first_min)
  have step: "resolve_row matrix r s = Inr ?s"
    by (rule resolve_row_four_case[OF Cons.prems(1) r am m])
  have inv': "resolver_inv ?s" by (rule four_case_rule_inv[OF Cons.prems(1) r m])
  have len': "length (keys ?s) = length matrix"
    using Cons.prems by (simp add: four_case_rule_length)
  have "resolve_rows matrix rs ?s = Inr (resolve_from matrix rs ?s) \<and>
        resolver_inv (resolve_from matrix rs ?s)"
    using Cons.IH[OF inv' len'] Cons.prems by simp
  then show ?case using step by (simp add: resolve_from_Cons)
qed

lemma initial_inv:
  "resolver_inv \<lparr>output_dict = [], keys = replicate n (-1), counter = 0\<rparr>"
  by (simp add: resolver_inv_def)

lemma process_dist_mat_resolve:
  assumes "square matrix"
  shows "process_dist_mat matrix = Inr (output_dict (resolve matrix)) \<and> resolver_inv (resolve matrix)"
proof -
  let ?s0 = "\<lparr>output_dict = [], keys = replicate (length matrix) (-1), counter = 0\<rparr>"
  have "resolve_rows matrix [0..<length matrix] ?s0 = Inr (resolve_from matrix [0..<length matrix] ?s0) \<and>
        resolver_inv (resolve_from matrix [0..<length matrix] ?s0)"
    by (rule resolve_rows_refines[OF assms initial_inv]) auto
  then show ?thesis by (simp add: process_dist_mat_def resolve_def)
qed

lemma resolve_from_owner_stable:
  assumes "i < length (keys s)" "keys s ! i \<noteq> -1"
  shows "keys (resolve_from matrix rs s) ! i = keys s ! i"
  using assms
proof (induction rs arbitrary: s)
  case Nil
  then show ?case by (simp add: resolve_from_Nil)
next
  case (Cons r rs)
  let ?s = "four_case_rule r (first_min (matrix ! r)) s"
  have st: "keys ?s ! i = keys s ! i"
    by (rule four_case_rule_owner_stable[OF Cons.prems])
  have "keys (resolve_from matrix rs ?s) ! i = keys ?s ! i"
    using Cons.IH[of ?s] Cons.prems st by (simp add: four_case_rule_length)
  then show ?case using st by (simp add: resolve_from_Cons)
qed

lemma resolve_from_assigns:
  assumes "square matrix" "resolver_inv s" "length (keys s) = length matrix"
    and "\<forall>r \<in> set rs. r < length matrix" and "i \<in> set rs"
  shows "keys (resolve_from matrix rs s) ! i \<noteq> -1"
  using assms(2-)
proof (induction rs arbitrary: s)
  case Nil
  then show ?case by simp
next
  case (Cons r rs)
  let ?m = "first_min (matrix ! r)"
  let ?s = "four_case_rule r ?m s"
  have r: "r < length (keys s)" using Cons.prems by simp
  have m: "?m < length (keys s)" using square_row[OF assms(1)] Cons.prems by simp
  have inv': "resolver_inv ?s" by (rule four_case_rule_inv[OF Cons.prems(1) r m])
  have len': "length (keys ?s) = length matrix"
    using Cons.prems by (simp add: four_case_rule_length)
  show ?case
  proof (cases "i = r")
    case True
    have a: "keys ?s ! r \<noteq> -1" by (rule four_case_rule_assigns[OF Cons.prems(1) r m])
    have "keys (resolve_from matrix rs ?s) ! r = keys ?s ! r"
      using resolve_from_owner_stable[of r ?s matrix rs] a r by (simp add: four_case_rule_length)
    then show ?thesis using a True by (simp add: resolve_from_Cons)
  next
    case False
    then have "i \<in> set rs" using Cons.prems by simp
    then have "keys (resolve_from matrix rs ?s) ! i \<noteq> -1"
      using Cons.IH[OF inv' len'] Cons.prems by simp
    then show ?thesis by (simp add: resolve_from_Cons)
  qed
qed

lemma four_case_rule_distinct:
  assumes inv: "resolver_inv s" and d: "members_distinct s"
    and r: "r < length (keys s)" and m: "m < length (keys s)" and ne: "m \<noteq> r"
  shows "members_distinct (four_case_rule r m s)"
proof -
  have add: "members_distinct (s\<lparr>output_dict := add_member (output_dict s) c a, keys := ks\<rparr>)"
    if "keys s ! a = -1" "a < length (keys s)" for a c ks
    unfolding members_distinct_def
  proof (clarify)
    fix c' ms assume "(c', ms) \<in> set (output_dict (s\<lparr>output_dict := add_member (output_dict s) c a, keys := ks\<rparr>))"
    then have "(c', ms) \<in> set (add_member (output_dict s) c a)" by simp
    then obtain ms0 where old: "(c', ms0) \<in> set (output_dict s)"
      and ms: "ms = (if c' = c then ms0 @ [a] else ms0)"
      unfolding set_add_member by (auto split: if_splits)
    have "0 \<le> c'" using inv_id_range[OF inv old] by simp
    then have "a \<notin> set ms0" using inv_members[OF inv old] that by auto
    moreover have "distinct ms0" using d old unfolding members_distinct_def by auto
    ultimately show "distinct ms" using ms by simp
  qed
  show ?thesis
  proof (cases "keys s ! r = -1 \<and> keys s ! m = -1")
    case True
    then show ?thesis using d ne
      by (auto simp: four_case_rule_def members_distinct_def)
  next
    case False
    then show ?thesis using add[of r] add[of m] r m d
      by (auto simp: four_case_rule_def)
  qed
qed

lemma resolve_from_distinct:
  assumes "square matrix" "resolver_inv s" "members_distinct s" "length (keys s) = length matrix"
    and "\<forall>r \<in> set rs. r < length matrix \<and> first_min (matrix ! r) \<noteq> r"
  shows "members_distinct (resolve_from matrix rs s)"
  using assms(2-)
proof (induction rs arbitrary: s)
  case Nil
  then show ?case by (simp add: resolve_from_Nil)
next
  case (Cons r rs)
  let ?m = "first_min (matrix ! r)"
  let ?s = "four_case_rule r ?m s"
  have r: "r < length (keys s)" using Cons.prems by simp
  have m: "?m < length (keys s)" using square_row[OF assms(1)] Cons.prems by simp
  have ne: "?m \<noteq> r" using Cons.prems by simp
  have inv': "resolver_inv ?s" by (rule four_case_rule_inv[OF Cons.prems(1) r m])
  have d': "members_distinct ?s" by (rule four_case_rule_distinct[OF Cons.prems(1,2) r m ne])
  have len': "length (keys ?s) = length matrix"
    using Cons.prems by (simp add: four_case_rule_length)
  have "members_distinct (resolve_from matrix rs ?s)"
    using Cons.IH[OF inv' d' len'] Cons.prems by simp
  then show ?case by (simp add: resolve_from_Cons)
qed

subsection \<open>The resolver's clusters partition the index set\<close>

text \<open>
  What holds of every square distance matrix: \<open>process_dist_mat\<close> raises no
  exception; the cluster ids of its result are \<open>0, 1, \<dots>\<close> in allocation order;
  every index of the matrix occurs in the member list of exactly one cluster;
  every member list is non-empty and holds indices of the matrix only.  A
  member list repeats an index only where a row has its first minimum on the
  diagonal.
\<close>

lemma process_dist_mat_covers:
  fixes matrix :: "'a::linorder list list"
  assumes sq: "square matrix"
  shows "\<exists>clusters. process_dist_mat matrix = Inr clusters \<and>
           map fst clusters = map int [0..<length clusters] \<and>
           (\<forall>i<length matrix. \<exists>!j. j < length clusters \<and> i \<in> set (snd (clusters ! j))) \<and>
           (\<forall>j<length clusters. snd (clusters ! j) \<noteq> [] \<and> set (snd (clusters ! j)) \<subseteq> {0..<length matrix}) \<and>
           ((\<forall>r<length matrix. np_argmin (matrix ! r) \<noteq> Inr r) \<longrightarrow>
              (\<forall>j<length clusters. distinct (snd (clusters ! j))))"
proof -
  let ?s0 = "\<lparr>output_dict = [], keys = replicate (length matrix) (-1), counter = 0\<rparr>"
  let ?s = "resolve matrix"
  let ?cl = "output_dict ?s"
  have run: "process_dist_mat matrix = Inr ?cl" and inv: "resolver_inv ?s"
    using process_dist_mat_resolve[OF sq] by simp_all
  have len: "length (keys ?s) = length matrix"
    by (simp add: resolve_def resolve_from_length)
  have c0: "0 \<le> counter ?s" using inv unfolding resolver_inv_def by simp
  have ids: "map fst ?cl = map int [0..<nat (counter ?s)]"
    using inv unfolding resolver_inv_def by simp
  then have lcl: "length ?cl = nat (counter ?s)"
    by (metis length_map length_upt minus_nat.diff_0)
  have ids': "map fst ?cl = map int [0..<length ?cl]" using ids lcl by simp
  have fstj: "fst (?cl ! j) = int j" if "j < length ?cl" for j
  proof -
    have "fst (?cl ! j) = map fst ?cl ! j" using that by simp
    also have "\<dots> = int j" using that unfolding ids' by simp
    finally show ?thesis .
  qed
  have mem: "snd (?cl ! j) \<noteq> [] \<and> set (snd (?cl ! j)) = {i. i < length matrix \<and> keys ?s ! i = int j}"
    if "j < length ?cl" for j
  proof -
    have "(fst (?cl ! j), snd (?cl ! j)) \<in> set ?cl" using that by simp
    then show ?thesis using inv_members[OF inv] fstj[OF that] len by force
  qed
  have assigned: "keys ?s ! i \<noteq> -1" if "i < length matrix" for i
    unfolding resolve_def
    by (rule resolve_from_assigns[OF sq initial_inv]) (use that in auto)
  have owner: "0 \<le> keys ?s ! i \<and> keys ?s ! i < counter ?s" if "i < length matrix" for i
    using inv assigned[OF that] that len unfolding resolver_inv_def by auto
  have part: "\<exists>!j. j < length ?cl \<and> i \<in> set (snd (?cl ! j))" if i: "i < length matrix" for i
  proof (rule ex1I[where a = "nat (keys ?s ! i)"])
    show "nat (keys ?s ! i) < length ?cl \<and> i \<in> set (snd (?cl ! nat (keys ?s ! i)))"
    proof -
      have lt: "nat (keys ?s ! i) < length ?cl" using owner[OF i] lcl by simp
      then show ?thesis using mem[OF lt] owner[OF i] i by simp
    qed
  next
    fix j assume "j < length ?cl \<and> i \<in> set (snd (?cl ! j))"
    then show "j = nat (keys ?s ! i)" using mem[of j] by auto
  qed
  have sub: "\<forall>j<length ?cl. snd (?cl ! j) \<noteq> [] \<and> set (snd (?cl ! j)) \<subseteq> {0..<length matrix}"
    using mem by auto
  have dist: "\<forall>j<length ?cl. distinct (snd (?cl ! j))"
    if ns: "\<forall>r<length matrix. np_argmin (matrix ! r) \<noteq> Inr r"
  proof -
    have "first_min (matrix ! r) \<noteq> r" if "r < length matrix" for r
      using ns that square_row[OF sq that] by (auto simp: np_argmin_first_min)
    then have "members_distinct ?s"
      unfolding resolve_def
      by (intro resolve_from_distinct[OF sq initial_inv]) (auto simp: members_distinct_def)
    then show ?thesis
      unfolding members_distinct_def by (metis case_prodD nth_mem prod.collapse)
  qed
  show ?thesis
    using run ids' part sub dist by blast
qed

text \<open>
  C1.  The member lists of the resolver's result are not a partition of the
  index set: a row whose first minimum is its own index, met while the row has
  no owner, is written into its new cluster twice, because the rule for two
  unowned indices adds the row and then its match without asking whether they
  are the same index.  Every two by two matrix with constant rows is such an
  input (for two images the suppression makes every row constant): the result
  is the single cluster 0 with the members 0, 0, 1, in which index 0 occurs
  twice.
\<close>

theorem process_dist_mat_repeats_index:
  fixes x y :: "'a::linorder"
  shows "process_dist_mat [[x, x], [y, y]] = Inr [(0, [0, 0, 1])]"
  by (simp add: process_dist_mat_def resolve_row_def np_argmin_def upt_rec)

subsection \<open>The four-case rule\<close>

text \<open>
  C4.  On every square distance matrix the resolver computes exactly what the
  documented rule computes: rows in index order, each row matched to its first
  minimum, the four cases applied to the owners of the row and of its match.
  In the fourth case, where both already have an owner, an iteration leaves the
  state as it is, so two existing clusters are never merged.  For three items
  whose rows have their first minima at B, A and B, the result is the single
  cluster with id 0 and members A, B, C in this order.
\<close>

theorem resolver_four_case_rule:
  fixes matrix :: "'a::linorder list list"
  assumes sq: "square matrix"
  shows "process_dist_mat matrix = Inr (output_dict (resolve matrix)) \<and>
         (\<forall>r m (s::resolver_state). np_argmin (matrix ! r) = Inr m \<and> m < length (keys s) \<and>
                  keys s ! r \<noteq> -1 \<and> keys s ! m \<noteq> -1 \<longrightarrow> resolve_row matrix r s = Inr s) \<and>
         (length matrix = 3 \<and> np_argmin (matrix ! 0) = Inr 1 \<and> np_argmin (matrix ! 1) = Inr 0 \<and>
          np_argmin (matrix ! 2) = Inr 1 \<longrightarrow> process_dist_mat matrix = Inr [(0, [0, 1, 2])])"
proof (intro conjI allI impI)
  show "process_dist_mat matrix = Inr (output_dict (resolve matrix))"
    using process_dist_mat_resolve[OF sq] by simp
next
  fix r m and s :: resolver_state
  assume "np_argmin (matrix ! r) = Inr m \<and> m < length (keys s) \<and>
          keys s ! r \<noteq> -1 \<and> keys s ! m \<noteq> -1"
  then show "resolve_row matrix r s = Inr s"
    by (simp add: resolve_row_def)
next
  assume "length matrix = 3 \<and> np_argmin (matrix ! 0) = Inr 1 \<and> np_argmin (matrix ! 1) = Inr 0 \<and>
          np_argmin (matrix ! 2) = Inr 1"
  then show "process_dist_mat matrix = Inr [(0, [0, 1, 2])]"
    by (simp add: process_dist_mat_def resolve_row_def upt_rec numeral_eq_Suc)
qed

theorem resolver_four_case_rule_witness:
  "square [[3/5, 1/5, 3/5], [1/5, 2/5, 2/5], [3/5, 2/5, 3/5::rat]] \<and>
   length [[3/5, 1/5, 3/5], [1/5, 2/5, 2/5], [3/5, 2/5, 3/5::rat]] = 3 \<and>
   np_argmin ([[3/5, 1/5, 3/5], [1/5, 2/5, 2/5], [3/5, 2/5, 3/5::rat]] ! 0) = Inr 1 \<and>
   np_argmin ([[3/5, 1/5, 3/5], [1/5, 2/5, 2/5], [3/5, 2/5, 3/5::rat]] ! 1) = Inr 0 \<and>
   np_argmin ([[3/5, 1/5, 3/5], [1/5, 2/5, 2/5], [3/5, 2/5, 3/5::rat]] ! 2) = Inr 1 \<and>
   process_dist_mat [[3/5, 1/5, 3/5], [1/5, 2/5, 2/5], [3/5, 2/5, 3/5::rat]] = Inr [(0, [0, 1, 2])] \<and>
   process_dist_mat [[3/5, 1/5, 3/5], [1/5, 2/5, 2/5], [3/5, 2/5, 3/5::rat]] =
     Inr (output_dict (resolve [[3/5, 1/5, 3/5], [1/5, 2/5, 2/5], [3/5, 2/5, 3/5::rat]]))"
proof -
  define M where "M = [[3/5, 1/5, 3/5], [1/5, 2/5, 2/5], [3/5, 2/5, 3/5::rat]]"
  have sq: "square M" by (simp add: M_def square_def)
  have a: "length M = 3 \<and> np_argmin (M ! 0) = Inr 1 \<and> np_argmin (M ! 1) = Inr 0 \<and>
           np_argmin (M ! 2) = Inr 1"
    by (simp add: M_def np_argmin_def)
  have "square M \<and> length M = 3 \<and> np_argmin (M ! 0) = Inr 1 \<and> np_argmin (M ! 1) = Inr 0 \<and>
        np_argmin (M ! 2) = Inr 1 \<and> process_dist_mat M = Inr [(0, [0, 1, 2])] \<and>
        process_dist_mat M = Inr (output_dict (resolve M))"
    using resolver_four_case_rule[OF sq] a sq by blast
  then show ?thesis unfolding M_def .
qed

subsection \<open>Self-match suppression\<close>

lemma argmax_from_spec:
  assumes "bi < length pre" "pre ! bi = b" "\<forall>j<length pre. pre ! j \<le> b" "i = length pre"
  shows "argmax_from b bi i xs < length (pre @ xs) \<and>
         (\<forall>j<length (pre @ xs). (pre @ xs) ! j \<le> (pre @ xs) ! argmax_from b bi i xs)"
  using assms
proof (induction xs arbitrary: pre b bi i)
  case Nil
  then show ?case by simp
next
  case (Cons x xs)
  show ?case
  proof (cases "b < x")
    case True
    have "argmax_from x (length pre) (Suc (length pre)) xs < length ((pre @ [x]) @ xs) \<and>
         (\<forall>j<length ((pre @ [x]) @ xs). ((pre @ [x]) @ xs) ! j \<le> ((pre @ [x]) @ xs) ! argmax_from x (length pre) (Suc (length pre)) xs)"
    proof (rule Cons.IH)
      show "length pre < length (pre @ [x])" by simp
      show "(pre @ [x]) ! length pre = x" by simp
      show "\<forall>j<length (pre @ [x]). (pre @ [x]) ! j \<le> x"
        using True Cons.prems(3) by (auto simp: nth_append less_Suc_eq intro: less_imp_le order.trans)
      show "Suc (length pre) = length (pre @ [x])" by simp
    qed
    then show ?thesis using True Cons.prems(4) by simp
  next
    case False
    have "argmax_from b bi (Suc (length pre)) xs < length ((pre @ [x]) @ xs) \<and>
         (\<forall>j<length ((pre @ [x]) @ xs). ((pre @ [x]) @ xs) ! j \<le> ((pre @ [x]) @ xs) ! argmax_from b bi (Suc (length pre)) xs)"
    proof (rule Cons.IH)
      show "bi < length (pre @ [x])" using Cons.prems(1) by simp
      show "(pre @ [x]) ! bi = b" using Cons.prems(1,2) by (simp add: nth_append)
      show "\<forall>j<length (pre @ [x]). (pre @ [x]) ! j \<le> b"
        using False Cons.prems(3) by (auto simp: nth_append less_Suc_eq)
      show "Suc (length pre) = length (pre @ [x])" by simp
    qed
    then show ?thesis using False Cons.prems(4) by simp
  qed
qed

lemma np_argmax_spec:
  assumes "xs \<noteq> []"
  shows "\<exists>h. np_argmax xs = Inr h \<and> h < length xs \<and> (\<forall>j<length xs. xs ! j \<le> xs ! h)"
proof -
  obtain x rest where xs: "xs = x # rest" using assms by (cases xs) auto
  have "argmax_from x 0 1 rest < length ([x] @ rest) \<and>
         (\<forall>j<length ([x] @ rest). ([x] @ rest) ! j \<le> ([x] @ rest) ! argmax_from x 0 1 rest)"
    by (rule argmax_from_spec) auto
  then show ?thesis unfolding xs by (simp add: np_argmax_def)
qed

lemma np_argmin_unique_min:
  fixes xs :: "'a::linorder list"
  assumes "r < length xs" "\<forall>j<length xs. j \<noteq> r \<longrightarrow> xs ! r < xs ! j"
  shows "np_argmin xs = Inr r"
proof -
  have ne: "xs \<noteq> []" using assms(1) by auto
  from np_argmin_spec[OF ne] obtain m where
    m: "np_argmin xs = Inr m" "m < length xs" "\<forall>j<length xs. xs ! m \<le> xs ! j" by blast
  have "m = r" using assms m(2,3) by (metis not_less)
  then show ?thesis using m(1) by simp
qed

lemma gallery_distances_run:
  assumes "\<forall>g \<in> set gallery. \<exists>e. model g = Inr e"
  shows "gallery_distances model cos_dist qe gallery acc =
           Inr (acc @ map (\<lambda>g. cos_dist qe (projr (model g))) gallery)"
  using assms
proof (induction gallery arbitrary: acc)
  case Nil
  then show ?case by simp
next
  case (Cons g gallery)
  from Cons.prems obtain e where e: "model g = Inr e" by auto
  have "gallery_distances model cos_dist qe gallery (acc @ [cos_dist qe e]) =
          Inr ((acc @ [cos_dist qe e]) @ map (\<lambda>g. cos_dist qe (projr (model g))) gallery)"
    by (rule Cons.IH) (use Cons.prems in simp)
  then show ?case using e by simp
qed

lemma np_argmin_pair_equal: "np_argmin [d, d] = Inr 0"
  by (simp add: np_argmin_def)

lemma suppressed_pair:
  fixes x y :: "'a::linorder"
  shows "\<exists>lo hi. np_argmax [x, y] = Inr hi \<and> np_argmin [x, y] = Inr lo \<and>
           [x, y][lo := [x, y] ! hi] = [max x y, max x y]"
proof (cases "x < y")
  case True
  then have "\<not> y < x" and "x \<le> y" by simp_all
  with True have "np_argmax [x, y] = Inr 1 \<and> np_argmin [x, y] = Inr 0 \<and> [x, y][0 := [x, y] ! 1] = [max x y, max x y]"
    by (simp add: np_argmax_def np_argmin_def max_def)
  then show ?thesis by blast
next
  case False
  show ?thesis
  proof (cases "y < x")
    case True
    then have "\<not> x < y" and "\<not> x \<le> y" by simp_all
    with True have "np_argmax [x, y] = Inr 0 \<and> np_argmin [x, y] = Inr 1 \<and> [x, y][1 := [x, y] ! 0] = [max x y, max x y]"
      by (simp add: np_argmax_def np_argmin_def max_def)
    then show ?thesis by blast
  next
    case False
    with \<open>\<not> x < y\<close> have "x = y" by simp
    then have "np_argmax [x, y] = Inr 0 \<and> np_argmin [x, y] = Inr 0 \<and> [x, y][0 := [x, y] ! 0] = [max x y, max x y]"
      by (simp add: np_argmax_def np_argmin_def)
    then show ?thesis by blast
  qed
qed

lemma compute_distances_pair:
  fixes cos_dist :: "'e \<Rightarrow> 'e \<Rightarrow> 'a::linorder"
  shows "compute_distances (\<lambda>img. Inr (net img)) cos_dist q [a, b] True =
           Inr [max (cos_dist (net q) (net a)) (cos_dist (net q) (net b)),
                max (cos_dist (net q) (net a)) (cos_dist (net q) (net b))]"
proof -
  let ?x = "cos_dist (net q) (net a)" and ?y = "cos_dist (net q) (net b)"
  from suppressed_pair[of ?x ?y] obtain lo hi where
    s: "np_argmax [?x, ?y] = Inr hi" "np_argmin [?x, ?y] = Inr lo"
       "[?x, ?y][lo := [?x, ?y] ! hi] = [max ?x ?y, max ?x ?y]" by blast
  show ?thesis using s by (simp add: compute_distances_def)
qed

text \<open>
  C2.  The suppression does not keep a row's first minimum off the diagonal.
  For two images, whatever the network and the distance are, the row of either
  image after the suppression holds the row's maximum twice, so its first
  minimum is index 0: row 0 selects itself.  With more images the same happens
  where the query has a duplicate earlier in the gallery: for the embeddings
  \<open>0, 0, 1\<close> row 1 is \<open>[0, 0, 1]\<close>, the suppression overwrites index 0 only, and
  the first minimum of \<open>[1, 0, 1]\<close> is index 1, the row itself.
\<close>

theorem suppression_selects_diagonal:
  fixes cos_dist :: "'e \<Rightarrow> 'e \<Rightarrow> 'a::linorder"
  shows "(\<exists>d. compute_distances (\<lambda>img. Inr (net img)) cos_dist ([a, b] ! 0) [a, b] True = Inr [d, d] \<and>
              np_argmin [d, d] = Inr 0) \<and>
         compute_distances (\<lambda>img. Inr img) (\<lambda>x y. \<bar>x - y\<bar>) ([0, 0, 1::rat] ! 1) [0, 0, 1] True = Inr [1, 0, 1] \<and>
         np_argmin [1, 0, 1::rat] = Inr 1"
proof -
  have two: "\<exists>d. compute_distances (\<lambda>img. Inr (net img)) cos_dist ([a, b] ! 0) [a, b] True = Inr [d, d] \<and>
              np_argmin [d, d] = Inr 0"
    using compute_distances_pair[of net cos_dist "[a, b] ! 0" a b] np_argmin_pair_equal by blast
  have three: "compute_distances (\<lambda>img. Inr img) (\<lambda>x y. \<bar>x - y\<bar>) ([0, 0, 1::rat] ! 1) [0, 0, 1] True = Inr [1, 0, 1]"
    by (simp add: compute_distances_def np_argmin_def np_argmax_def)
  have am: "np_argmin [1, 0, 1::rat] = Inr 1" by (simp add: np_argmin_def)
  show ?thesis using two three am by blast
qed

subsection \<open>The result assembler\<close>

lemma digit_val_digit_char: "d < 10 \<Longrightarrow> digit_val (digit_char d) = d"
proof -
  assume "d < 10"
  then consider "d = 0" | "d = 1" | "d = 2" | "d = 3" | "d = 4" | "d = 5" | "d = 6" | "d = 7"
    | "d = 8" | "d = 9" by atomize_elim arith
  then show ?thesis by cases (simp_all add: digit_val_def digit_char_def)
qed

lemma digit_char_not_minus: "d < 10 \<Longrightarrow> digit_char d \<noteq> CHR ''-''"
proof -
  assume "d < 10"
  then consider "d = 0" | "d = 1" | "d = 2" | "d = 3" | "d = 4" | "d = 5" | "d = 6" | "d = 7"
    | "d = 8" | "d = 9" by atomize_elim arith
  then show ?thesis by cases (simp_all add: digit_char_def)
qed

lemma nat_of_digits_snoc: "nat_of_digits (cs @ [c]) = 10 * nat_of_digits cs + digit_val c"
  by (simp add: nat_of_digits_def)

lemma nat_of_digits_str_nat: "nat_of_digits (str_nat n) = n"
proof (induction n rule: str_nat.induct)
  case (1 n)
  show ?case
  proof (cases "n < 10")
    case True
    then show ?thesis
      by (simp add: str_nat.simps[of n] nat_of_digits_def digit_val_digit_char)
  next
    case False
    then have "nat_of_digits (str_nat (n div 10)) = n div 10" using 1 by simp
    then show ?thesis using False
      by (simp add: str_nat.simps[of n] nat_of_digits_snoc digit_val_digit_char)
  qed
qed

lemma str_nat_inj: "str_nat a = str_nat b \<Longrightarrow> a = b"
  by (metis nat_of_digits_str_nat)

lemma hd_str_nat: "str_nat n \<noteq> [] \<and> hd (str_nat n) \<noteq> CHR ''-''"
proof (induction n rule: str_nat.induct)
  case (1 n)
  show ?case
  proof (cases "n < 10")
    case True
    then show ?thesis by (simp add: str_nat.simps[of n] digit_char_not_minus)
  next
    case False
    then have "str_nat (n div 10) \<noteq> [] \<and> hd (str_nat (n div 10)) \<noteq> CHR ''-''" using 1 by simp
    then show ?thesis using False by (simp add: str_nat.simps[of n])
  qed
qed

lemma str_int_inj: "str_int a = str_int b \<Longrightarrow> a = b"
proof -
  assume eq: "str_int a = str_int b"
  consider (nn) "a < 0" "b < 0" | (np) "a < 0" "\<not> b < 0" | (pn) "\<not> a < 0" "b < 0"
    | (pp) "\<not> a < 0" "\<not> b < 0" by blast
  then show ?thesis
  proof cases
    case nn
    then have "str_nat (nat (- a)) = str_nat (nat (- b))" using eq by (simp add: str_int_def)
    then have "nat (- a) = nat (- b)" by (rule str_nat_inj)
    then show ?thesis using nn by simp
  next
    case np
    then have "CHR ''-'' # str_nat (nat (- a)) = str_nat (nat b)" using eq by (simp add: str_int_def)
    then have "hd (str_nat (nat b)) = CHR ''-''" by (metis list.sel(1))
    then show ?thesis using hd_str_nat[of "nat b"] by simp
  next
    case pn
    then have "str_nat (nat a) = CHR ''-'' # str_nat (nat (- b))" using eq by (simp add: str_int_def)
    then have "hd (str_nat (nat a)) = CHR ''-''" by (metis list.sel(1))
    then show ?thesis using hd_str_nat[of "nat a"] by simp
  next
    case pp
    then have "str_nat (nat a) = str_nat (nat b)" using eq by (simp add: str_int_def)
    then have "nat a = nat b" by (rule str_nat_inj)
    then show ?thesis using pp by simp
  qed
qed

lemma lookup_names_in_range:
  "\<forall>i \<in> set ms. i < length nms \<Longrightarrow> lookup_names nms ms = Inr (map (\<lambda>i. nms ! i) ms)"
  by (induction ms) auto

lemma dict_contains_iff: "dict_contains d k \<longleftrightarrow> k \<in> fst ` set d"
  by (induction d) auto

lemma format_clusters_acc:
  assumes "distinct (map fst cs)"
    and "\<forall>cl \<in> set cs. ''ID-'' @ str_int (fst cl) \<notin> fst ` set out"
    and "\<forall>cl \<in> set cs. \<forall>i \<in> set (snd cl). i < length nms"
  shows "format_clusters nms cs out =
           Inr (out @ map (\<lambda>cl. (''ID-'' @ str_int (fst cl), map (\<lambda>i. nms ! i) (snd cl))) cs)"
  using assms
proof (induction cs arbitrary: out)
  case Nil
  then show ?case by simp
next
  case (Cons cl cs)
  obtain c ms where cl: "cl = (c, ms)" by (cases cl)
  let ?label = "''ID-'' @ str_int c"
  let ?out = "out @ [(?label, map (\<lambda>i. nms ! i) ms)]"
  have lk: "lookup_names nms ms = Inr (map (\<lambda>i. nms ! i) ms)"
    using Cons.prems(3) cl by (intro lookup_names_in_range) auto
  have fresh: "?label \<notin> fst ` set out" using Cons.prems(2) cl by auto
  have step: "format_clusters nms (cl # cs) out = format_clusters nms cs ?out"
    using lk fresh by (simp add: cl dict_contains_iff dict_set_fresh)
  have d: "distinct (map fst cs)" using Cons.prems(1) by simp
  have f: "\<forall>cl' \<in> set cs. ''ID-'' @ str_int (fst cl') \<notin> fst ` set ?out"
  proof
    fix cl' assume m: "cl' \<in> set cs"
    have "fst cl' \<noteq> c" using Cons.prems(1) m cl by auto
    then have "''ID-'' @ str_int (fst cl') \<noteq> ?label" using str_int_inj by auto
    moreover have "''ID-'' @ str_int (fst cl') \<notin> fst ` set out" using Cons.prems(2) m by auto
    ultimately show "''ID-'' @ str_int (fst cl') \<notin> fst ` set ?out" by auto
  qed
  have r: "\<forall>cl \<in> set cs. \<forall>i \<in> set (snd cl). i < length nms" using Cons.prems(3) by auto
  show ?case unfolding step using Cons.IH[OF d f r] by (simp add: cl)
qed

lemma process_dist_mat_shape:
  fixes matrix :: "'a::linorder list list"
  assumes sq: "square matrix"
  shows "\<exists>cs. process_dist_mat matrix = Inr cs \<and> map fst cs = map int [0..<length cs] \<and>
           (\<forall>cl \<in> set cs. \<forall>i \<in> set (snd cl). i < length matrix)"
proof -
  let ?s = "resolve matrix"
  have run: "process_dist_mat matrix = Inr (output_dict ?s)" and inv: "resolver_inv ?s"
    using process_dist_mat_resolve[OF sq] by simp_all
  have len: "length (keys ?s) = length matrix"
    by (simp add: resolve_def resolve_from_length)
  have ids: "map fst (output_dict ?s) = map int [0..<nat (counter ?s)]"
    using inv unfolding resolver_inv_def by simp
  then have "length (output_dict ?s) = nat (counter ?s)"
    by (metis length_map length_upt minus_nat.diff_0)
  then have ids': "map fst (output_dict ?s) = map int [0..<length (output_dict ?s)]"
    using ids by simp
  have "\<forall>cl \<in> set (output_dict ?s). \<forall>i \<in> set (snd cl). i < length matrix"
  proof (intro ballI)
    fix cl i assume "cl \<in> set (output_dict ?s)" "i \<in> set (snd cl)"
    then show "i < length matrix"
      using inv_members[OF inv, of "fst cl" "snd cl"] len by auto
  qed
  then show ?thesis using run ids' by blast
qed

lemma map_assemble_entry:
  assumes "\<forall>cl \<in> set cs. \<forall>i \<in> set (snd cl). i < length image_paths"
  shows "map (\<lambda>cl. (''ID-'' @ str_int (fst cl),
               map (\<lambda>i. map (\<lambda>img_path. last (split_char CHR ''/'' img_path)) image_paths ! i) (snd cl))) cs
         = map (assemble_entry image_paths) cs"
  using assms by (auto simp: assemble_entry_def)

lemma format_output_dict_eq:
  assumes "distinct (map fst id_dict)"
    and "\<forall>cl \<in> set id_dict. \<forall>i \<in> set (snd cl). i < length image_paths"
  shows "format_output_dict image_paths id_dict = Inr (map (assemble_entry image_paths) id_dict)"
proof -
  let ?names = "map (\<lambda>img_path. last (split_char CHR ''/'' img_path)) image_paths"
  have "format_clusters ?names id_dict [] =
          Inr ([] @ map (\<lambda>cl. (''ID-'' @ str_int (fst cl), map (\<lambda>i. ?names ! i) (snd cl))) id_dict)"
    by (rule format_clusters_acc) (use assms in auto)
  then show ?thesis
    using map_assemble_entry[OF assms(2)] by (simp add: format_output_dict_def)
qed

lemma distinct_labels:
  assumes "distinct (map fst id_dict)"
  shows "distinct (map fst (map (assemble_entry image_paths) id_dict))"
proof -
  have eq: "map fst (map (assemble_entry image_paths) id_dict) = map (\<lambda>c. ''ID-'' @ str_int c) (map fst id_dict)"
    by (simp add: assemble_entry_def comp_def)
  have "inj (\<lambda>c. ''ID-'' @ str_int c)"
    by (rule injI) (use str_int_inj in auto)
  then have "inj_on (\<lambda>c. ''ID-'' @ str_int c) (set (map fst id_dict))"
    by (rule inj_on_subset) simp
  then have "distinct (map (\<lambda>c. ''ID-'' @ str_int c) (map fst id_dict))"
    using assms by (subst distinct_map) simp
  then show ?thesis unfolding eq .
qed

text \<open>
  C7.  For a cluster dictionary with one entry per cluster id whose members all
  index into the reference list, \<open>format_output_dict\<close> raises no exception and
  returns, in the dictionary's order, exactly one entry per cluster: the label
  \<open>"ID-"\<close> followed by the decimal cluster id, and the last path component of
  the reference of each member, in the member list's order.  The labels are
  pairwise different.  Applied to the resolver's result for a square matrix over
  the references, the labels are \<open>ID-0\<close>, \<open>ID-1\<close>, \<dots> in allocation order.
\<close>

theorem format_output_dict_assembles:
  fixes matrix :: "'a::linorder list list"
  assumes "distinct (map fst id_dict)"
    and "\<forall>cl \<in> set id_dict. \<forall>i \<in> set (snd cl). i < length image_paths"
  shows "format_output_dict image_paths id_dict = Inr (map (assemble_entry image_paths) id_dict) \<and>
         length (map (assemble_entry image_paths) id_dict) = length id_dict \<and>
         distinct (map fst (map (assemble_entry image_paths) id_dict)) \<and>
         (square matrix \<and> length matrix = length image_paths \<longrightarrow>
            (\<exists>cs. process_dist_mat matrix = Inr cs \<and>
               format_output_dict image_paths cs = Inr (map (assemble_entry image_paths) cs) \<and>
               map fst (map (assemble_entry image_paths) cs) =
                 map (\<lambda>j. ''ID-'' @ str_int (int j)) [0..<length cs]))"
proof (intro conjI impI)
  show "format_output_dict image_paths id_dict = Inr (map (assemble_entry image_paths) id_dict)"
    by (rule format_output_dict_eq[OF assms])
  show "length (map (assemble_entry image_paths) id_dict) = length id_dict" by simp
  show "distinct (map fst (map (assemble_entry image_paths) id_dict))"
    by (rule distinct_labels[OF assms(1)])
next
  assume a: "square matrix \<and> length matrix = length image_paths"
  from process_dist_mat_shape[of matrix] a obtain cs where
    c: "process_dist_mat matrix = Inr cs" "map fst cs = map int [0..<length cs]"
       "\<forall>cl \<in> set cs. \<forall>i \<in> set (snd cl). i < length matrix" by blast
  have d: "distinct (map fst cs)" unfolding c(2) by (simp add: distinct_map)
  have r: "\<forall>cl \<in> set cs. \<forall>i \<in> set (snd cl). i < length image_paths" using c(3) a by simp
  have f: "format_output_dict image_paths cs = Inr (map (assemble_entry image_paths) cs)"
    by (rule format_output_dict_eq[OF d r])
  have "map fst (map (assemble_entry image_paths) cs) = map (\<lambda>c. ''ID-'' @ str_int c) (map fst cs)"
    by (simp add: assemble_entry_def comp_def)
  also have "\<dots> = map (\<lambda>j. ''ID-'' @ str_int (int j)) [0..<length cs]"
    unfolding c(2) by (simp add: comp_def)
  finally show "\<exists>cs. process_dist_mat matrix = Inr cs \<and>
               format_output_dict image_paths cs = Inr (map (assemble_entry image_paths) cs) \<and>
               map fst (map (assemble_entry image_paths) cs) =
                 map (\<lambda>j. ''ID-'' @ str_int (int j)) [0..<length cs]"
    using c(1) f by blast
qed


theorem format_output_dict_assembles_witness:
  "format_output_dict [''x/a.jpg'', ''b.jpg'', ''/c/d/e.jpg''] [(0, [0, 2]), (1, [1])] =
     Inr [(''ID-0'', [''a.jpg'', ''e.jpg'']), (''ID-1'', [''b.jpg''])] \<and>
   (\<exists>cs. process_dist_mat [[3/5, 1/5, 3/5], [1/5, 2/5, 2/5], [3/5, 2/5, 3/5::rat]] = Inr cs \<and>
      format_output_dict [''x/a.jpg'', ''b.jpg'', ''/c/d/e.jpg''] cs =
        Inr [(''ID-0'', [''a.jpg'', ''b.jpg'', ''e.jpg''])])"
proof -
  define paths where "paths = [''x/a.jpg'', ''b.jpg'', ''/c/d/e.jpg'']"
  define id_dict where "id_dict = [(0::int, [0, 2::nat]), (1, [1])]"
  define M where "M = [[3/5, 1/5, 3/5], [1/5, 2/5, 2/5], [3/5, 2/5, 3/5::rat]]"
  have d: "distinct (map fst id_dict)" by (simp add: id_dict_def)
  have r: "\<forall>cl \<in> set id_dict. \<forall>i \<in> set (snd cl). i < length paths"
    by (simp add: id_dict_def paths_def)
  have sq: "square M \<and> length M = length paths" by (simp add: M_def paths_def square_def)
  have run: "process_dist_mat M = Inr [(0, [0, 1, 2])]"
    by (simp add: M_def process_dist_mat_def resolve_row_def np_argmin_def upt_rec)
  have e1: "map (assemble_entry paths) id_dict =
      [(''ID-0'', [''a.jpg'', ''e.jpg'']), (''ID-1'', [''b.jpg''])]"
    by (simp add: paths_def id_dict_def assemble_entry_def str_int_def str_nat.simps digit_char_def)
  have e2: "map (assemble_entry paths) [(0, [0, 1, 2])] = [(''ID-0'', [''a.jpg'', ''b.jpg'', ''e.jpg''])]"
    by (simp add: paths_def assemble_entry_def str_int_def str_nat.simps digit_char_def)
  from format_output_dict_assembles[OF d r, of M] sq have
    f: "format_output_dict paths id_dict = Inr (map (assemble_entry paths) id_dict)"
    and "\<exists>cs. process_dist_mat M = Inr cs \<and>
           format_output_dict paths cs = Inr (map (assemble_entry paths) cs)"
    by blast+
  then have g: "format_output_dict paths [(0, [0, 1, 2])] = Inr (map (assemble_entry paths) [(0, [0, 1, 2])])"
    using run by auto
  have "format_output_dict paths id_dict = Inr [(''ID-0'', [''a.jpg'', ''e.jpg'']), (''ID-1'', [''b.jpg''])] \<and>
        (\<exists>cs. process_dist_mat M = Inr cs \<and>
           format_output_dict paths cs = Inr [(''ID-0'', [''a.jpg'', ''b.jpg'', ''e.jpg''])])"
    using f g run e1 e2 by simp
  then show ?thesis unfolding paths_def id_dict_def M_def .
qed

subsection \<open>Rounding to the nearest double\<close>

lemma bitlen_rat_bounds:
  assumes "0 < a"
  shows "(2::rat) powi (bitlen a - 1) \<le> of_int a \<and> of_int a < (2::rat) powi (bitlen a)"
proof -
  have b1: "1 \<le> bitlen a" using assms by (simp add: bitlen_alt_def)
  from bitlen_bounds[OF assms] have lo: "2 ^ nat (bitlen a - 1) \<le> a" and hi: "a < 2 ^ nat (bitlen a)"
    by simp_all
  have "(2::rat) powi (bitlen a - 1) = 2 ^ nat (bitlen a - 1)"
    using b1 by (simp add: power_int_nonneg_exp)
  also have "\<dots> = of_int (2 ^ nat (bitlen a - 1))" by simp
  also have "\<dots> \<le> of_int a" using lo by (simp only: of_int_le_iff)
  finally have l: "(2::rat) powi (bitlen a - 1) \<le> of_int a" .
  have "(of_int a :: rat) < of_int (2 ^ nat (bitlen a))" using hi by (simp only: of_int_less_iff)
  also have "\<dots> = 2 ^ nat (bitlen a)" by simp
  also have "\<dots> = (2::rat) powi (bitlen a)" using b1 by (simp add: power_int_nonneg_exp)
  finally show ?thesis using l by simp
qed

lemma binary_exponent_bounds:
  assumes "x \<noteq> 0"
  shows "2 powi (binary_exponent x) \<le> \<bar>x\<bar> \<and> \<bar>x\<bar> < 2 powi (binary_exponent x + 1)"
proof -
  let ?y = "\<bar>x\<bar>"
  obtain a b where q: "quotient_of ?y = (a, b)" by (cases "quotient_of ?y")
  have bpos: "0 < b" using quotient_of_denom_pos[OF q] .
  have y: "?y = of_int a / of_int b" using quotient_of_div[OF q] .
  have ypos: "0 < ?y" using assms by simp
  have apos: "0 < a"
  proof -
    have "0 < (of_int a :: rat) / of_int b" using ypos y by simp
    then have "0 < (of_int a :: rat)" using bpos by (simp add: zero_less_divide_iff)
    then show ?thesis by simp
  qed
  let ?e = "bitlen a - bitlen b"
  note A = bitlen_rat_bounds[OF apos] and B = bitlen_rat_bounds[OF bpos]
  have bq: "0 < (of_int b :: rat)" using bpos by simp
  have up: "?y < 2 powi (?e + 1)"
  proof -
    have "(of_int a :: rat) < 2 powi (bitlen a)" using A by simp
    also have "\<dots> = 2 powi (?e + 1) * 2 powi (bitlen b - 1)"
      by (simp flip: power_int_add)
    also have "\<dots> \<le> 2 powi (?e + 1) * of_int b"
      using B by (intro mult_left_mono) simp_all
    finally have "(of_int a :: rat) < 2 powi (?e + 1) * of_int b" .
    then show ?thesis unfolding y using bq by (simp add: pos_divide_less_eq)
  qed
  have low: "2 powi (?e - 1) \<le> ?y"
  proof -
    have "2 powi (?e - 1) * (of_int b :: rat) \<le> 2 powi (?e - 1) * 2 powi (bitlen b)"
      using B by (intro mult_left_mono) simp_all
    also have "\<dots> = 2 powi (bitlen a - 1)"
      by (simp flip: power_int_add)
    also have "\<dots> \<le> of_int a" using A by simp
    finally have "2 powi (?e - 1) * (of_int b :: rat) \<le> of_int a" .
    then show ?thesis unfolding y using bq by (simp add: pos_le_divide_eq)
  qed
  show ?thesis
  proof (cases "2 powi ?e \<le> ?y")
    case True
    then have "binary_exponent x = ?e" using q by (simp add: binary_exponent_def)
    then show ?thesis using True up by simp
  next
    case False
    then have "binary_exponent x = ?e - 1" using q by (simp add: binary_exponent_def)
    then show ?thesis using False low by simp
  qed
qed

lemma binary_exponent_mono:
  assumes "0 < x" "x \<le> y"
  shows "binary_exponent x \<le> binary_exponent y"
proof (rule ccontr)
  assume "\<not> binary_exponent x \<le> binary_exponent y"
  then have "binary_exponent y + 1 \<le> binary_exponent x" by simp
  then have "(2::rat) powi (binary_exponent y + 1) \<le> 2 powi (binary_exponent x)"
    by (intro power_int_increasing) simp_all
  moreover have "2 powi (binary_exponent x) \<le> x"
    using binary_exponent_bounds[of x] assms by simp
  moreover have "y < 2 powi (binary_exponent y + 1)"
    using binary_exponent_bounds[of y] assms by simp
  ultimately show False using assms by linarith
qed

lemma round_half_even_floor:
  "\<lfloor>x\<rfloor> \<le> round_half_even x \<and> round_half_even x \<le> \<lfloor>x\<rfloor> + 1"
  by (simp add: round_half_even_def Let_def)

lemma round_half_even_of_int: "round_half_even (of_int k) = k"
  by (simp add: round_half_even_def Let_def)

lemma round_half_even_mono:
  assumes "x \<le> y"
  shows "round_half_even x \<le> round_half_even y"
proof (cases "\<lfloor>x\<rfloor> = \<lfloor>y\<rfloor>")
  case True
  have "x - of_int \<lfloor>x\<rfloor> \<le> y - of_int \<lfloor>y\<rfloor>" using assms True by simp
  then show ?thesis using True
    by (auto simp: round_half_even_def Let_def)
next
  case False
  then have "\<lfloor>x\<rfloor> < \<lfloor>y\<rfloor>" using assms floor_mono[OF assms] by simp
  then show ?thesis
    using round_half_even_floor[of x] round_half_even_floor[of y] by linarith
qed

lemma round_half_even_ge:
  assumes "of_int k \<le> x"
  shows "k \<le> round_half_even x"
  using round_half_even_mono[OF assms] by (simp add: round_half_even_of_int)

lemma round_half_even_le:
  assumes "x \<le> of_int k"
  shows "round_half_even x \<le> k"
  using round_half_even_mono[OF assms] by (simp add: round_half_even_of_int)

lemma round_double_range:
  assumes "0 < x"
  shows "2 powi (binary_exponent x) \<le> round_double x \<and> round_double x \<le> 2 powi (binary_exponent x + 1)"
proof -
  let ?e = "binary_exponent x"
  let ?u = "(2::rat) powi (?e - 52)"
  have upos: "0 < ?u" by simp
  have bnd: "2 powi ?e \<le> x" "x < 2 powi (?e + 1)"
    using binary_exponent_bounds[of x] assms by simp_all
  have rd: "round_double x = of_int (round_half_even (x / ?u)) * ?u"
    using assms by (simp add: round_double_def Let_def)
  have e1: "(2::rat) powi ?e = 2 ^ 52 * ?u"
    by (simp add: power_int_diff)
  have e2: "(2::rat) powi (?e + 1) = 2 ^ 53 * ?u"
    by (simp add: power_int_diff power_int_add)
  have "of_int (2 ^ 52) \<le> x / ?u"
    using bnd(1) upos unfolding e1 by (simp add: pos_le_divide_eq)
  then have "2 ^ 52 \<le> round_half_even (x / ?u)" by (rule round_half_even_ge)
  then have "(of_int (2 ^ 52) :: rat) \<le> of_int (round_half_even (x / ?u))"
    by (simp only: of_int_le_iff)
  then have lo: "2 ^ 52 * ?u \<le> round_double x"
    unfolding rd using upos by (intro mult_right_mono) simp_all
  have "x / ?u \<le> of_int (2 ^ 53)"
    using bnd(2) upos unfolding e2 by (simp add: pos_divide_le_eq)
  then have "round_half_even (x / ?u) \<le> 2 ^ 53" by (rule round_half_even_le)
  then have "(of_int (round_half_even (x / ?u)) :: rat) \<le> of_int (2 ^ 53)"
    by (simp only: of_int_le_iff)
  then have hi: "round_double x \<le> 2 ^ 53 * ?u"
    unfolding rd using upos by (intro mult_right_mono) simp_all
  show ?thesis using lo hi unfolding e1 e2 by simp
qed

lemma round_double_pos: "0 < x \<Longrightarrow> 0 < round_double x"
  using round_double_range[of x] zero_less_power_int[of "2::rat" "binary_exponent x"]
  by linarith

lemma round_double_mono_pos:
  assumes "0 < x" "x \<le> y"
  shows "round_double x \<le> round_double y"
proof -
  have ypos: "0 < y" using assms by simp
  have le: "binary_exponent x \<le> binary_exponent y" by (rule binary_exponent_mono[OF assms])
  show ?thesis
  proof (cases "binary_exponent x = binary_exponent y")
    case True
    let ?u = "(2::rat) powi (binary_exponent x - 52)"
    have upos: "0 < ?u" by simp
    have "x / ?u \<le> y / ?u" using assms(2) upos by (simp add: divide_right_mono)
    then have "round_half_even (x / ?u) \<le> round_half_even (y / ?u)" by (rule round_half_even_mono)
    then have "(of_int (round_half_even (x / ?u)) :: rat) * ?u \<le> of_int (round_half_even (y / ?u)) * ?u"
      using upos by (intro mult_right_mono) simp_all
    then show ?thesis using assms(1) ypos True by (simp add: round_double_def Let_def)
  next
    case False
    then have "binary_exponent x + 1 \<le> binary_exponent y" using le by simp
    then have "(2::rat) powi (binary_exponent x + 1) \<le> 2 powi (binary_exponent y)"
      by (intro power_int_increasing) simp_all
    then show ?thesis
      using round_double_range[OF assms(1)] round_double_range[OF ypos] by linarith
  qed
qed

lemma round_double_1: "round_double 1 = 1"
  by (simp add: round_double_def binary_exponent_def round_half_even_def Let_def)

lemma round_double_100: "round_double 100 = 100"
  by code_simp

subsection \<open>Identity resolution end to end\<close>

lemma progress_percent_value: "0 < n \<Longrightarrow> progress_percent i n = Inr (progress_value i n)"
  by (simp add: progress_percent_def int_truediv_def progress_value_def)

lemma progress_percent_zero: "progress_percent i 0 = Inl ZeroDivisionError"
  by (simp add: progress_percent_def int_truediv_def)

lemma float_of_int_100: "float_of_int 100 = 100"
  by (simp add: float_of_int_def round_double_100)

lemma progress_value_mono:
  assumes "0 < n" "i \<le> j"
  shows "progress_value i n \<le> progress_value j n"
proof -
  let ?q = "\<lambda>k::nat. (of_int (int k + 1) :: rat) / of_int (int n)"
  have npos: "0 < (of_int (int n) :: rat)" using assms(1) by simp
  have qpos: "0 < ?q i" using npos by (simp add: zero_less_divide_iff)
  have "?q i \<le> ?q j" using assms(2) npos by (simp add: divide_right_mono)
  then have r: "round_double (?q i) \<le> round_double (?q j)"
    by (rule round_double_mono_pos[OF qpos])
  have rpos: "0 < round_double (?q i) * 100" using round_double_pos[OF qpos] by simp
  have "round_double (?q i) * 100 \<le> round_double (?q j) * 100" using r by simp
  then have m: "round_double (round_double (?q i) * 100) \<le> round_double (round_double (?q j) * 100)"
    by (rule round_double_mono_pos[OF rpos])
  have p1: "0 \<le> round_double (round_double (?q i) * 100)"
    using round_double_pos[OF rpos] by simp
  then have p2: "0 \<le> round_double (round_double (?q j) * 100)" using m by simp
  have vi: "progress_value i n = \<lfloor>round_double (round_double (?q i) * 100)\<rfloor>"
    unfolding progress_value_def float_mul_def float_of_int_100 py_int_def using p1 by simp
  have vj: "progress_value j n = \<lfloor>round_double (round_double (?q j) * 100)\<rfloor>"
    unfolding progress_value_def float_mul_def float_of_int_100 py_int_def using p2 by simp
  show ?thesis unfolding vi vj using m by (rule floor_mono)
qed

lemma progress_value_range:
  assumes "0 < n" "i < n"
  shows "0 \<le> progress_value i n \<and> progress_value i n \<le> 100"
proof -
  let ?q = "(of_int (int i + 1) :: rat) / of_int (int n)"
  have npos: "0 < (of_int (int n) :: rat)" using assms(1) by simp
  have qpos: "0 < ?q" using npos by (simp add: zero_less_divide_iff)
  have "(of_int (int i + 1) :: rat) \<le> of_int (int n)" using assms(2) by simp
  then have "?q \<le> 1" using npos by (simp add: pos_divide_le_eq)
  then have "round_double ?q \<le> round_double 1" by (rule round_double_mono_pos[OF qpos])
  then have r1: "round_double ?q \<le> 1" by (simp add: round_double_1)
  have rpos: "0 < round_double ?q * 100" using round_double_pos[OF qpos] by simp
  have "round_double ?q * 100 \<le> 100" using r1 by simp
  then have "round_double (round_double ?q * 100) \<le> round_double 100"
    by (rule round_double_mono_pos[OF rpos])
  then have hi: "round_double (round_double ?q * 100) \<le> 100" by (simp add: round_double_100)
  have lo: "0 \<le> round_double (round_double ?q * 100)" using round_double_pos[OF rpos] by simp
  have "\<lfloor>round_double (round_double ?q * 100)\<rfloor> \<le> \<lfloor>100::rat\<rfloor>" using hi by (rule floor_mono)
  then have fl: "\<lfloor>round_double (round_double ?q * 100)\<rfloor> \<le> 100" by simp
  have fl0: "0 \<le> \<lfloor>round_double (round_double ?q * 100)\<rfloor>" using lo by simp
  have v: "progress_value i n = \<lfloor>round_double (round_double ?q * 100)\<rfloor>"
    unfolding progress_value_def float_mul_def float_of_int_100 py_int_def using lo by simp
  show ?thesis unfolding v using fl fl0 by simp
qed

lemma progress_value_last:
  assumes "0 < n"
  shows "progress_value (n - 1) n = 100"
proof -
  have "int (n - 1) + 1 = int n" using assms by simp
  then have q: "(of_int (int (n - 1) + 1) :: rat) / of_int (int n) = 1" using assms by simp
  have "progress_value (n - 1) n = py_int (round_double (round_double 1 * 100))"
    unfolding progress_value_def float_mul_def float_of_int_100 q ..
  also have "\<dots> = py_int 100" by (simp add: round_double_1 round_double_100)
  also have "\<dots> = 100" by (simp add: py_int_def)
  finally show ?thesis .
qed

lemma progress_percent_Inr: "progress_percent i n = Inr v \<Longrightarrow> v = progress_value i n"
  by (cases "n = 0") (simp_all add: progress_percent_zero progress_percent_value)

lemma compute_distances_total:
  assumes "gallery \<noteq> []" "model q = Inr qe" "\<forall>g \<in> set gallery. \<exists>e. model g = Inr e"
  shows "\<exists>row. compute_distances model cos_dist q gallery True = Inr row \<and> length row = length gallery"
proof -
  let ?xs = "map (\<lambda>g. cos_dist qe (projr (model g))) gallery"
  have g: "gallery_distances model cos_dist qe gallery [] = Inr ?xs"
    using gallery_distances_run[OF assms(3), of cos_dist qe "[]"] by simp
  have ne: "?xs \<noteq> []" using assms(1) by simp
  from np_argmin_spec[OF ne] obtain lo where lo: "np_argmin ?xs = Inr lo" by blast
  from np_argmax_spec[OF ne] obtain hi where hi: "np_argmax ?xs = Inr hi" by blast
  show ?thesis using assms(2) g lo hi by (simp add: compute_distances_def)
qed

lemma load_images_run:
  assumes "\<forall>p \<in> set paths. \<exists>opened. image_open pf p = Inr opened"
  shows "load_images pf paths loaded =
           Inr (loaded @ map (\<lambda>p. image_transforms pf (projr (image_open pf p))) paths)"
  using assms
proof (induction paths arbitrary: loaded)
  case Nil
  then show ?case by simp
next
  case (Cons p paths)
  from Cons.prems obtain opened where o: "image_open pf p = Inr opened" by auto
  have "load_images pf paths (loaded @ [image_transforms pf opened]) =
          Inr ((loaded @ [image_transforms pf opened]) @
               map (\<lambda>p. image_transforms pf (projr (image_open pf p))) paths)"
    by (rule Cons.IH) (use Cons.prems in simp)
  then show ?case using o by (simp add: load_and_preprocess_image_def)
qed

lemma load_images_raises:
  assumes "\<exists>p \<in> set paths. \<exists>e. image_open pf p = Inl e"
  shows "\<exists>e. load_images pf paths loaded = Inl e"
  using assms
proof (induction paths arbitrary: loaded)
  case Nil
  then show ?case by simp
next
  case (Cons p paths)
  show ?case
  proof (cases "image_open pf p")
    case (Inl e)
    then show ?thesis by (simp add: load_and_preprocess_image_def)
  next
    case (Inr opened)
    with Cons.prems have "\<exists>p \<in> set paths. \<exists>e. image_open pf p = Inl e" by auto
    from Cons.IH[OF this, of "loaded @ [image_transforms pf opened]"] show ?thesis
      using Inr by (simp add: load_and_preprocess_image_def)
  qed
qed

lemma distance_rows_run:
  assumes "gallery \<noteq> []" "0 < n" "\<forall>g \<in> set gallery. \<exists>e. model g = Inr e"
    and "\<forall>i \<in> set idxs. \<exists>e. model (qs ! i) = Inr e"
  shows "\<exists>rows. distance_rows model cos_dist qs gallery n cb idxs dm em =
           (em @ (if cb then map (\<lambda>i. progress_value i n) idxs else []), Inr (dm @ rows)) \<and>
           length rows = length idxs \<and> (\<forall>row \<in> set rows. length row = length gallery)"
  using assms(4)
proof (induction idxs arbitrary: dm em)
  case Nil
  then show ?case by simp
next
  case (Cons i idxs)
  from Cons.prems obtain qe where qe: "model (qs ! i) = Inr qe" by auto
  from compute_distances_total[OF assms(1) qe assms(3), of cos_dist] obtain row where
    row: "compute_distances model cos_dist (qs ! i) gallery True = Inr row" "length row = length gallery"
    by blast
  let ?em = "if cb then em @ [progress_value i n] else em"
  have rest: "\<forall>i \<in> set idxs. \<exists>e. model (qs ! i) = Inr e" using Cons.prems by simp
  from Cons.IH[OF rest, of "dm @ [row]" ?em] obtain rows where
    rows: "distance_rows model cos_dist qs gallery n cb idxs (dm @ [row]) ?em =
             (?em @ (if cb then map (\<lambda>i. progress_value i n) idxs else []), Inr ((dm @ [row]) @ rows))"
          "length rows = length idxs" "\<forall>row \<in> set rows. length row = length gallery"
    by blast
  have "distance_rows model cos_dist qs gallery n cb (i # idxs) dm em =
          (em @ (if cb then map (\<lambda>i. progress_value i n) (i # idxs) else []), Inr (dm @ (row # rows)))"
    using row(1) rows(1) progress_percent_value[OF assms(2), of i] by simp
  moreover have "length (row # rows) = length (i # idxs)" using rows(2) by simp
  moreover have "\<forall>r \<in> set (row # rows). length r = length gallery" using row(2) rows(3) by simp
  ultimately show ?case by blast
qed

lemma distance_rows_prefix:
  "\<exists>k\<le>length idxs. fst (distance_rows model cos_dist qs gallery n cb idxs dm em) =
        em @ (if cb then map (\<lambda>i. progress_value i n) (take k idxs) else [])"
proof (induction idxs arbitrary: dm em)
  case Nil
  then show ?case by simp
next
  case (Cons i idxs)
  show ?case
  proof (cases "compute_distances model cos_dist (qs ! i) gallery True")
    case (Inl e)
    then have "fst (distance_rows model cos_dist qs gallery n cb (i # idxs) dm em) =
                 em @ (if cb then map (\<lambda>i. progress_value i n) (take 0 (i # idxs)) else [])"
      by simp
    then show ?thesis by blast
  next
    case (Inr row)
    show ?thesis
    proof (cases "progress_percent i n")
      case (Inl e)
      then have "fst (distance_rows model cos_dist qs gallery n cb (i # idxs) dm em) =
                   em @ (if cb then map (\<lambda>i. progress_value i n) (take 0 (i # idxs)) else [])"
        using \<open>compute_distances model cos_dist (qs ! i) gallery True = Inr row\<close> by simp
      then show ?thesis by blast
    next
      case (Inr v)
      have v: "v = progress_value i n" by (rule progress_percent_Inr[OF Inr])
      let ?em = "if cb then em @ [progress_value i n] else em"
      from Cons.IH[of "dm @ [row]" ?em] obtain k where
        k: "k \<le> length idxs"
           "fst (distance_rows model cos_dist qs gallery n cb idxs (dm @ [row]) ?em) =
              ?em @ (if cb then map (\<lambda>i. progress_value i n) (take k idxs) else [])"
        by blast
      have "fst (distance_rows model cos_dist qs gallery n cb (i # idxs) dm em) =
              em @ (if cb then map (\<lambda>i. progress_value i n) (take (Suc k) (i # idxs)) else [])"
        using \<open>compute_distances model cos_dist (qs ! i) gallery True = Inr row\<close> Inr v k(2) by simp
      moreover have "Suc k \<le> length (i # idxs)" using k(1) by simp
      ultimately show ?thesis by blast
    qed
  qed
qed

lemma reid_main_model_raises: "load_model pf = Inl e \<Longrightarrow> reid_main pf image_path_list cb = ([], Inl e)"
  by (simp add: reid_main_def)

lemma reid_main_open_raises:
  assumes "\<exists>p \<in> set image_path_list. \<exists>e. image_open pf p = Inl e"
  shows "\<exists>e. reid_main pf image_path_list cb = ([], Inl e)"
proof (cases "load_model pf")
  case (Inl e)
  then show ?thesis by (simp add: reid_main_def)
next
  case (Inr model)
  from load_images_raises[OF assms, of "[]"] obtain e where "load_images pf image_path_list [] = Inl e" ..
  then show ?thesis using Inr by (simp add: reid_main_def)
qed

lemma reid_main_emitted:
  "\<exists>k\<le>length image_path_list. fst (reid_main pf image_path_list cb) =
        (if cb then map (\<lambda>i. progress_value i (length image_path_list)) [0..<k] else [])"
proof (cases "load_model pf")
  case (Inl e)
  then have "fst (reid_main pf image_path_list cb) =
               (if cb then map (\<lambda>i. progress_value i (length image_path_list)) [0..<0] else [])"
    by (simp add: reid_main_def)
  then show ?thesis by blast
next
  case (Inr model)
  show ?thesis
  proof (cases "load_images pf image_path_list []")
    case (Inl e)
    then have "fst (reid_main pf image_path_list cb) =
                 (if cb then map (\<lambda>i. progress_value i (length image_path_list)) [0..<0] else [])"
      using \<open>load_model pf = Inr model\<close> by (simp add: reid_main_def)
    then show ?thesis by blast
  next
    case imgs: (Inr images)
    let ?n = "length image_path_list"
    let ?run = "distance_rows model (cosine_distance pf) images images ?n cb [0..<?n] [] []"
    have f: "fst (reid_main pf image_path_list cb) = fst ?run"
      using Inr imgs by (simp add: reid_main_def split: prod.splits sum.splits)
    from distance_rows_prefix[of "[0..<?n]" model "cosine_distance pf" images images ?n cb "[]" "[]"]
    obtain k where k: "k \<le> length [0..<?n]"
      "fst ?run = [] @ (if cb then map (\<lambda>i. progress_value i ?n) (take k [0..<?n]) else [])" by blast
    have t: "take k [0..<?n] = [0..<k]" using k(1) by (simp add: take_upt)
    have "fst (reid_main pf image_path_list cb) = (if cb then map (\<lambda>i. progress_value i ?n) [0..<k] else [])"
      unfolding f k(2) t by simp
    moreover have "k \<le> ?n" using k(1) by simp
    ultimately show ?thesis by blast
  qed
qed

lemma reid_main_run:
  assumes model: "load_model pf = Inr model"
    and opens: "\<forall>p \<in> set image_path_list. \<exists>opened embedding.
                  image_open pf p = Inr opened \<and> model (image_transforms pf opened) = Inr embedding"
  shows "\<exists>res. reid_main pf image_path_list cb =
           ((if cb then map (\<lambda>i. progress_value i (length image_path_list)) [0..<length image_path_list] else []),
            Inr res) \<and> (image_path_list = [] \<longrightarrow> res = [])"
proof (cases "image_path_list = []")
  case True
  then show ?thesis using model
    by (simp add: reid_main_def process_dist_mat_def format_output_dict_def)
next
  case False
  let ?n = "length image_path_list"
  let ?f = "\<lambda>p. image_transforms pf (projr (image_open pf p))"
  let ?imgs = "map ?f image_path_list"
  have o: "\<forall>p \<in> set image_path_list. \<exists>opened. image_open pf p = Inr opened" using opens by blast
  have li: "load_images pf image_path_list [] = Inr ?imgs"
    using load_images_run[OF o, of "[]"] by simp
  have emb: "\<exists>e. model (?f p) = Inr e" if "p \<in> set image_path_list" for p
  proof -
    from opens that obtain opened embedding where
      "image_open pf p = Inr opened" "model (image_transforms pf opened) = Inr embedding" by blast
    then show ?thesis by simp
  qed
  have ne: "?imgs \<noteq> []" and n: "0 < ?n" using False by simp_all
  have g: "\<forall>g \<in> set ?imgs. \<exists>e. model g = Inr e" using emb by auto
  have q: "\<forall>i \<in> set [0..<?n]. \<exists>e. model (?imgs ! i) = Inr e" using emb by simp
  from distance_rows_run[OF ne n g q, of "cosine_distance pf" cb "[]" "[]"] obtain rows where
    rows: "distance_rows model (cosine_distance pf) ?imgs ?imgs ?n cb [0..<?n] [] [] =
             ((if cb then map (\<lambda>i. progress_value i ?n) [0..<?n] else []), Inr rows)"
          "length rows = ?n" "\<forall>row \<in> set rows. length row = ?n"
    by auto
  have sq: "square rows" using rows(2,3) by (simp add: square_def)
  from process_dist_mat_shape[OF sq] obtain cs where
    cs: "process_dist_mat rows = Inr cs" "map fst cs = map int [0..<length cs]"
         "\<forall>cl \<in> set cs. \<forall>i \<in> set (snd cl). i < length rows" by blast
  have d: "distinct (map fst cs)" unfolding cs(2) by (simp add: distinct_map)
  have r: "\<forall>cl \<in> set cs. \<forall>i \<in> set (snd cl). i < length image_path_list"
    using cs(3) rows(2) by simp
  have f: "format_output_dict image_path_list cs = Inr (map (assemble_entry image_path_list) cs)"
    by (rule format_output_dict_eq[OF d r])
  show ?thesis using model li rows(1) cs(1) f False by (simp add: reid_main_def)
qed

lemma sorted_map_upt:
  fixes f :: "nat \<Rightarrow> int"
  assumes "\<And>i j. i \<le> j \<Longrightarrow> f i \<le> f j"
  shows "sorted (map f [0..<n])"
  unfolding sorted_iff_nth_mono
proof (intro allI impI)
  fix i j assume "i \<le> j" "j < length (map f [0..<n])"
  then have "map f [0..<n] ! i = f i" "map f [0..<n] ! j = f j" by simp_all
  then show "map f [0..<n] ! i \<le> map f [0..<n] ! j" using assms[OF \<open>i \<le> j\<close>] by simp
qed

text \<open>
  C10, as amended.  With a callback, identity resolution over \<open>n\<close> images hands
  the callback the values for the indices \<open>0, 1, \<dots>\<close> in this order, each at
  most once; the value for index \<open>i\<close> is the truncation of the double product of
  100 and the double quotient \<open>(i + 1) / n\<close>; the values handed over never
  decrease and lie between 0 and 100; without a callback nothing is handed
  over.  When the network loads, every path opens as an image and the network
  embeds every image, the run raises no exception and the callback gets exactly
  \<open>n\<close> values, the last of which is 100; for \<open>n = 0\<close> nothing is handed over, no
  division takes place and the result is the empty dictionary.  When the
  network does not load or some path does not open, the run raises before the
  first row and the callback is never invoked.
\<close>

theorem resolution_progress:
  fixes pf :: "('r, 'i, 'e, 'a::linorder) reid_platform"
  shows "(\<exists>k\<le>length image_path_list. fst (reid_main pf image_path_list True) =
            map (\<lambda>i. progress_value i (length image_path_list)) [0..<k]) \<and>
         sorted (fst (reid_main pf image_path_list True)) \<and>
         (\<forall>p \<in> set (fst (reid_main pf image_path_list True)). 0 \<le> p \<and> p \<le> 100) \<and>
         fst (reid_main pf image_path_list False) = [] \<and>
         ((\<exists>model. load_model pf = Inr model \<and>
             (\<forall>p \<in> set image_path_list. \<exists>opened embedding.
                image_open pf p = Inr opened \<and> model (image_transforms pf opened) = Inr embedding)) \<longrightarrow>
            fst (reid_main pf image_path_list True) =
              map (\<lambda>i. progress_value i (length image_path_list)) [0..<length image_path_list] \<and>
            length (fst (reid_main pf image_path_list True)) = length image_path_list \<and>
            (image_path_list \<noteq> [] \<longrightarrow> last (fst (reid_main pf image_path_list True)) = 100) \<and>
            (image_path_list = [] \<longrightarrow> reid_main pf image_path_list True = ([], Inr [])) \<and>
            (\<exists>res. snd (reid_main pf image_path_list True) = Inr res)) \<and>
         ((\<exists>e. load_model pf = Inl e) \<or> (\<exists>p \<in> set image_path_list. \<exists>e. image_open pf p = Inl e) \<longrightarrow>
            (\<exists>e. reid_main pf image_path_list True = ([], Inl e)))"
proof -
  let ?n = "length image_path_list"
  let ?pv = "\<lambda>i. progress_value i ?n"
  let ?run = "reid_main pf image_path_list True"
  from reid_main_emitted[of image_path_list pf True] obtain k where
    k: "k \<le> ?n" "fst ?run = map ?pv [0..<k]" by auto
  have a: "\<exists>k\<le>?n. fst ?run = map ?pv [0..<k]" using k by blast
  have b: "sorted (fst ?run)"
  proof (cases "?n = 0")
    case True
    then show ?thesis using k by simp
  next
    case False
    then have n: "0 < ?n" by simp
    show ?thesis unfolding k(2) by (rule sorted_map_upt) (rule progress_value_mono[OF n])
  qed
  have c: "\<forall>p \<in> set (fst ?run). 0 \<le> p \<and> p \<le> 100"
  proof
    fix p assume "p \<in> set (fst ?run)"
    then obtain i where i: "i < k" "p = ?pv i" unfolding k(2) by auto
    then have "i < ?n" using k(1) by linarith
    moreover from this have "0 < ?n" by linarith
    ultimately show "0 \<le> p \<and> p \<le> 100" using progress_value_range[of ?n i] i(2) by simp
  qed
  have d: "fst (reid_main pf image_path_list False) = []"
    using reid_main_emitted[of image_path_list pf False] by auto
  have e: "fst ?run = map ?pv [0..<?n] \<and> length (fst ?run) = ?n \<and>
           (image_path_list \<noteq> [] \<longrightarrow> last (fst ?run) = 100) \<and>
           (image_path_list = [] \<longrightarrow> ?run = ([], Inr [])) \<and> (\<exists>res. snd ?run = Inr res)"
    if h: "\<exists>model. load_model pf = Inr model \<and>
             (\<forall>p \<in> set image_path_list. \<exists>opened embedding.
                image_open pf p = Inr opened \<and> model (image_transforms pf opened) = Inr embedding)"
  proof -
    from h obtain model where m: "load_model pf = Inr model"
      and o: "\<forall>p \<in> set image_path_list. \<exists>opened embedding.
                image_open pf p = Inr opened \<and> model (image_transforms pf opened) = Inr embedding"
      by blast
    from reid_main_run[OF m o, of True] obtain res where
      t: "?run = (map ?pv [0..<?n], Inr res)" and r: "image_path_list = [] \<longrightarrow> res = []" by auto
    have l: "last (map ?pv [0..<?n]) = 100" if "image_path_list \<noteq> []"
    proof -
      have n: "0 < ?n" using that by simp
      then have "last (map ?pv [0..<?n]) = ?pv (?n - 1)" by (simp add: last_map last_upt)
      then show ?thesis using progress_value_last[OF n] by simp
    qed
    show ?thesis unfolding t using l r by simp
  qed
  have f: "\<exists>e. ?run = ([], Inl e)"
    if h: "(\<exists>e. load_model pf = Inl e) \<or> (\<exists>p \<in> set image_path_list. \<exists>e. image_open pf p = Inl e)"
    using h
  proof
    assume "\<exists>e. load_model pf = Inl e"
    then show ?thesis using reid_main_model_raises[of pf _ image_path_list True] by blast
  next
    assume "\<exists>p \<in> set image_path_list. \<exists>e. image_open pf p = Inl e"
    then show ?thesis by (rule reid_main_open_raises)
  qed
  show ?thesis using a b c d e f by blast
qed

theorem resolution_progress_witness:
  "load_model demo_reid = Inr (\<lambda>img. Inr (int (length img))) \<and>
   image_open demo_reid ''a'' = Inr ''a'' \<and> image_open demo_reid ''bb'' = Inr ''bb'' \<and>
   image_open demo_reid ''cccccc'' = Inr ''cccccc'' \<and>
   image_open demo_reid ''missing.jpg'' = Inl FileNotFoundError \<and>
   reid_main demo_reid [''a'', ''bb'', ''cccccc''] True =
     ([33, 66, 100], Inr [(''ID-0'', [''a'', ''bb'', ''cccccc''])]) \<and>
   sorted (fst (reid_main demo_reid [''a'', ''bb'', ''cccccc''] True)) \<and>
   last (fst (reid_main demo_reid [''a'', ''bb'', ''cccccc''] True)) = 100 \<and>
   length (fst (reid_main demo_reid [''a'', ''bb'', ''cccccc''] True)) = 3 \<and>
   (\<exists>e. reid_main demo_reid [''a'', ''missing.jpg''] True = ([], Inl e))"
proof -
  define good where "good = [''a'', ''bb'', ''cccccc'']"
  define bad where "bad = [''a'', ''missing.jpg'']"
  have m: "load_model demo_reid = Inr (\<lambda>img. Inr (int (length img)))"
    by (simp add: demo_reid_def)
  have o: "image_open demo_reid ''a'' = Inr ''a'' \<and> image_open demo_reid ''bb'' = Inr ''bb'' \<and>
           image_open demo_reid ''cccccc'' = Inr ''cccccc'' \<and>
           image_open demo_reid ''missing.jpg'' = Inl FileNotFoundError"
    by (simp add: demo_reid_def)
  have ev: "reid_main demo_reid good True = ([33, 66, 100], Inr [(''ID-0'', [''a'', ''bb'', ''cccccc''])])"
    unfolding good_def by code_simp
  have hg: "\<exists>model. load_model demo_reid = Inr model \<and>
             (\<forall>p \<in> set good. \<exists>opened embedding.
                image_open demo_reid p = Inr opened \<and>
                model (image_transforms demo_reid opened) = Inr embedding)"
    by (rule exI[where x = "\<lambda>img. Inr (int (length img))"]) (simp add: demo_reid_def good_def)
  have hb: "\<exists>p \<in> set bad. \<exists>e. image_open demo_reid p = Inl e"
    by (simp add: demo_reid_def bad_def)
  have ne: "good \<noteq> []" and len: "length good = 3" by (simp_all add: good_def)
  have g: "sorted (fst (reid_main demo_reid good True)) \<and>
           last (fst (reid_main demo_reid good True)) = 100 \<and>
           length (fst (reid_main demo_reid good True)) = length good"
    using resolution_progress[of good demo_reid] hg ne by blast
  have b: "\<exists>e. reid_main demo_reid bad True = ([], Inl e)"
    using resolution_progress[of bad demo_reid] hb by blast
  have "load_model demo_reid = Inr (\<lambda>img. Inr (int (length img))) \<and>
   image_open demo_reid ''a'' = Inr ''a'' \<and> image_open demo_reid ''bb'' = Inr ''bb'' \<and>
   image_open demo_reid ''cccccc'' = Inr ''cccccc'' \<and>
   image_open demo_reid ''missing.jpg'' = Inl FileNotFoundError \<and>
   reid_main demo_reid good True = ([33, 66, 100], Inr [(''ID-0'', [''a'', ''bb'', ''cccccc''])]) \<and>
   sorted (fst (reid_main demo_reid good True)) \<and>
   last (fst (reid_main demo_reid good True)) = 100 \<and>
   length (fst (reid_main demo_reid good True)) = 3 \<and>
   (\<exists>e. reid_main demo_reid bad True = ([], Inl e))"
    using m o ev g b len by simp
  then show ?thesis unfolding good_def bad_def .
qed

text \<open>
  The claim as it is written gives the value as the floor of the exact quotient
  times 100.  In double arithmetic \<open>29 / 100\<close> is slightly below 0.29 and its
  product with 100 rounds to the double just below 29, so index 28 of 100 images
  reports 28 where the exact floor is 29.
\<close>

theorem resolution_progress_counterexample:
  "progress_percent 28 100 = Inr 28 \<and> \<lfloor>(of_int (28 + 1) :: rat) / of_int 100 * 100\<rfloor> = 29"
  by code_simp

subsection \<open>A single image\<close>

text \<open>
  C3.  For a single crop that opens as an image and that the loaded network
  embeds, the run raises no exception and returns one cluster with label
  \<open>ID-0\<close>, but the member list of that cluster names the crop twice: the only
  row matches itself, and the rule for two unowned indices adds the row and its
  match.
\<close>

theorem reid_main_single_image:
  fixes pf :: "('r, 'i, 'e, 'a::linorder) reid_platform"
  assumes "load_model pf = Inr model" "image_open pf A = Inr opened"
    "model (image_transforms pf opened) = Inr embedding"
  shows "reid_main pf [A] cb =
     ((if cb then [100] else []),
      Inr [(''ID-0'', [last (split_char CHR ''/'' A), last (split_char CHR ''/'' A)])])"
  using assms
  by (simp add: reid_main_def load_and_preprocess_image_def compute_distances_def np_argmin_def np_argmax_def
      progress_percent_def int_truediv_def float_mul_def float_of_int_def round_double_1
      round_double_100 py_int_def process_dist_mat_def resolve_row_def format_output_dict_def
      str_int_def str_nat.simps digit_char_def)

theorem reid_main_single_image_witness:
  "load_model demo_reid = Inr (\<lambda>img. Inr (int (length img))) \<and>
   image_open demo_reid ''crops/A.jpg'' = Inr ''crops/A.jpg'' \<and>
   reid_main demo_reid [''crops/A.jpg''] True = ([100], Inr [(''ID-0'', [''A.jpg'', ''A.jpg''])])"
proof -
  have m: "load_model demo_reid = Inr (\<lambda>img. Inr (int (length img)))"
    by (simp add: demo_reid_def)
  have o: "image_open demo_reid ''crops/A.jpg'' = Inr ''crops/A.jpg''"
    by (simp add: demo_reid_def)
  have e: "(\<lambda>img. Inr (int (length img))) (image_transforms demo_reid ''crops/A.jpg'') =
             (Inr (int (length (image_transforms demo_reid ''crops/A.jpg''))) :: io_error + int)"
    by simp
  have s: "last (split_char CHR ''/'' ''crops/A.jpg'') = ''A.jpg''" by code_simp
  show ?thesis
    using reid_main_single_image[OF m o e, of True] m o unfolding s by simp
qed

subsection \<open>Detection\<close>

lemma argmax_from_first:
  assumes "bi < length pre" "pre ! bi = b" "\<forall>j<bi. pre ! j < b" "\<forall>j<length pre. pre ! j \<le> b"
    and "i = length pre"
  shows "\<forall>j<argmax_from b bi i xs. (pre @ xs) ! j < (pre @ xs) ! argmax_from b bi i xs"
  using assms
proof (induction xs arbitrary: pre b bi i)
  case Nil
  then show ?case by simp
next
  case (Cons x xs)
  show ?case
  proof (cases "b < x")
    case True
    have "\<forall>j<argmax_from x (length pre) (Suc (length pre)) xs.
            ((pre @ [x]) @ xs) ! j < ((pre @ [x]) @ xs) ! argmax_from x (length pre) (Suc (length pre)) xs"
    proof (rule Cons.IH)
      show "length pre < length (pre @ [x])" by simp
      show "(pre @ [x]) ! length pre = x" by simp
      show "\<forall>j<length pre. (pre @ [x]) ! j < x"
        using True Cons.prems(4) by (auto simp: nth_append intro: le_less_trans)
      show "\<forall>j<length (pre @ [x]). (pre @ [x]) ! j \<le> x"
        using True Cons.prems(4) by (auto simp: nth_append less_Suc_eq intro: less_imp_le order.trans)
      show "Suc (length pre) = length (pre @ [x])" by simp
    qed
    then show ?thesis using True Cons.prems(5) by simp
  next
    case False
    have "\<forall>j<argmax_from b bi (Suc (length pre)) xs.
            ((pre @ [x]) @ xs) ! j < ((pre @ [x]) @ xs) ! argmax_from b bi (Suc (length pre)) xs"
    proof (rule Cons.IH)
      show "bi < length (pre @ [x])" using Cons.prems(1) by simp
      show "(pre @ [x]) ! bi = b" using Cons.prems(1,2) by (simp add: nth_append)
      show "\<forall>j<bi. (pre @ [x]) ! j < b" using Cons.prems(1,3) by (auto simp: nth_append)
      show "\<forall>j<length (pre @ [x]). (pre @ [x]) ! j \<le> b"
        using False Cons.prems(4) by (auto simp: nth_append less_Suc_eq)
      show "Suc (length pre) = length (pre @ [x])" by simp
    qed
    then show ?thesis using False Cons.prems(5) by simp
  qed
qed

lemma np_argmax_first:
  assumes "np_argmax xs = Inr k"
  shows "k < length xs \<and> (\<forall>j<length xs. xs ! j \<le> xs ! k) \<and> (\<forall>j<k. xs ! j < xs ! k)"
proof -
  have ne: "xs \<noteq> []" using assms by (auto simp: np_argmax_def)
  then obtain x rest where xs: "xs = x # rest" by (cases xs) auto
  have k: "k = argmax_from x 0 1 rest" using assms unfolding xs by (simp add: np_argmax_def)
  have "\<forall>j<argmax_from x 0 1 rest. ([x] @ rest) ! j < ([x] @ rest) ! argmax_from x 0 1 rest"
    by (rule argmax_from_first) auto
  then have f: "\<forall>j<k. xs ! j < xs ! k" unfolding xs k by simp
  from np_argmax_spec[OF ne] assms have "k < length xs \<and> (\<forall>j<length xs. xs ! j \<le> xs ! k)" by auto
  then show ?thesis using f by simp
qed

text \<open>
  C8.  When the detector returns at least one box, the reported confidence and
  label are those of the box with the highest confidence (the first such box),
  while the overlay is drawn around, and the crop is cut from, the box at index
  0.  When the most confident box is not at index 0, the crop therefore comes
  from a box whose confidence is strictly lower than the reported one.
\<close>

theorem detection_crop_from_first_box:
  assumes ne: "boxes (yolo img) \<noteq> []"
    and k: "np_argmax (map conf (boxes (yolo img))) = Inr k"
    and lab: "names (yolo img) (py_int (cls (boxes (yolo img) ! k))) = Some label"
  shows "make_inference_detection draw_bounding_box yolo img =
           Inr (Some (draw_bounding_box img (xyxy (boxes (yolo img) ! 0)) (conf (boxes (yolo img) ! k)),
                      crop_image img (xyxy (boxes (yolo img) ! 0)),
                      label,
                      conf (boxes (yolo img) ! k))) \<and>
         (\<forall>j<length (boxes (yolo img)). conf (boxes (yolo img) ! j) \<le> conf (boxes (yolo img) ! k)) \<and>
         (k \<noteq> 0 \<longrightarrow> conf (boxes (yolo img) ! 0) < conf (boxes (yolo img) ! k))"
proof -
  let ?bs = "boxes (yolo img)"
  from np_argmax_first[OF k] have kk: "k < length ?bs"
    and mx: "\<forall>j<length (map conf ?bs). map conf ?bs ! j \<le> map conf ?bs ! k"
    and fst: "\<forall>j<k. map conf ?bs ! j < map conf ?bs ! k" by auto
  have z: "0 < length ?bs" using ne by simp
  have run: "make_inference_detection draw_bounding_box yolo img =
           Inr (Some (draw_bounding_box img (xyxy (?bs ! 0)) (conf (?bs ! k)),
                      crop_image img (xyxy (?bs ! 0)), label, conf (?bs ! k)))"
    using ne k lab kk z by (simp add: make_inference_detection_def Let_def)
  have all: "\<forall>j<length ?bs. conf (?bs ! j) \<le> conf (?bs ! k)" using mx kk by simp
  have first: "k \<noteq> 0 \<longrightarrow> conf (?bs ! 0) < conf (?bs ! k)" using fst kk by auto
  show ?thesis using run all first by blast
qed

theorem detection_crop_from_first_box_witness:
  "make_inference_detection (\<lambda>img b c. img)
     (\<lambda>img. \<lparr>names = [0 \<mapsto> ''stoat'', 1 \<mapsto> ''cat''],
              boxes = [\<lparr>xyxy = (0, 0, 1, 1), conf = 1/2, cls = 0\<rparr>,
                       \<lparr>xyxy = (1, 1, 3, 3), conf = 9/10, cls = 1\<rparr>]\<rparr>)
     [[0, 1, 2], [3, 4, 5], [6, 7, 8::nat]] =
     Inr (Some ([[0, 1, 2], [3, 4, 5], [6, 7, 8]], [[0]], ''cat'', 9/10)) \<and>
   crop_image [[0, 1, 2], [3, 4, 5], [6, 7, 8::nat]] (1, 1, 3, 3) = [[4, 5], [7, 8]]"
proof -
  define yolo :: "nat list list \<Rightarrow> prediction" where
    "yolo = (\<lambda>img. \<lparr>names = [0 \<mapsto> ''stoat'', 1 \<mapsto> ''cat''],
              boxes = [\<lparr>xyxy = (0, 0, 1, 1), conf = 1/2, cls = 0\<rparr>,
                       \<lparr>xyxy = (1, 1, 3, 3), conf = 9/10, cls = 1\<rparr>]\<rparr>)"
  define draw :: "nat list list \<Rightarrow> bbox \<Rightarrow> rat \<Rightarrow> nat list list" where "draw = (\<lambda>img b c. img)"
  define img :: "nat list list" where "img = [[0, 1, 2], [3, 4, 5], [6, 7, 8]]"
  have ne: "boxes (yolo img) \<noteq> []" by (simp add: yolo_def)
  have k: "np_argmax (map conf (boxes (yolo img))) = Inr 1"
    by (simp add: yolo_def np_argmax_def)
  have lab: "names (yolo img) (py_int (cls (boxes (yolo img) ! 1))) = Some ''cat''"
    by (simp add: yolo_def py_int_def)
  have b0: "xyxy (boxes (yolo img) ! 0) = (0, 0, 1, 1)" by (simp add: yolo_def)
  have "crop_image [[0, 1, 2], [3, 4, 5], [6, 7, 8::nat]] (0, 0, 1, 1) = [[0]]" by code_simp
  then have "crop_image img (0, 0, 1, 1) = [[0]]"
    unfolding img_def .
  then have c0: "crop_image img (xyxy (boxes (yolo img) ! 0)) = [[0]]"
    unfolding b0 .
  have "crop_image [[0, 1, 2], [3, 4, 5], [6, 7, 8::nat]] (1, 1, 3, 3) = [[4, 5], [7, 8]]" by code_simp
  then have c1: "crop_image img (1, 1, 3, 3) = [[4, 5], [7, 8]]"
    unfolding img_def .
  have d: "draw img (xyxy (boxes (yolo img) ! 0)) (conf (boxes (yolo img) ! 1)) = img"
    by (simp add: draw_def)
  have v: "conf (boxes (yolo img) ! 1) = 9/10" by (simp add: yolo_def)
  from detection_crop_from_first_box[where yolo = yolo and img = img and k = 1 and label = "''cat''"
      and draw_bounding_box = draw, OF ne k lab]
  have "make_inference_detection draw yolo img = Inr (Some (img, [[0]], ''cat'', 9/10))"
    unfolding c0 v by (simp add: draw_def)
  then have "make_inference_detection draw yolo img = Inr (Some (img, [[0]], ''cat'', 9/10)) \<and>
             crop_image img (1, 1, 3, 3) = [[4, 5], [7, 8]]"
    using c1 by simp
  then show ?thesis unfolding yolo_def draw_def img_def .
qed

subsection \<open>The extraction orchestrator\<close>






lemma py_rsplit1_append:
  assumes "sep \<notin> set b"
  shows "py_rsplit1 sep (a @ [sep] @ b) = [a, b]"
proof -
  let ?P = "\<lambda>c. c \<noteq> sep"
  have r: "rev (a @ [sep] @ b) = rev b @ sep # rev a" by simp
  have all: "\<And>x. x \<in> set (rev b) \<Longrightarrow> ?P x" using assms by auto
  have t: "takeWhile ?P (rev b @ sep # rev a) = rev b"
    using takeWhile_append2[of "rev b" ?P "sep # rev a"] all by simp
  have d: "dropWhile ?P (rev b @ sep # rev a) = sep # rev a"
    using dropWhile_append2[of "rev b" ?P "sep # rev a"] all by simp
  have "sep \<in> set (a @ [sep] @ b)" by simp
  then show ?thesis unfolding py_rsplit1_def r t d by simp
qed












text \<open>
  The writes can raise.  A box without area gives an empty crop, on which
  \<open>cv2.imwrite\<close> raises; an overlay that could not be written cannot be read
  back, and \<open>cv2.resize\<close> raises in \<open>generate_thumbnail\<close>.  Such an exception
  ends the worker's run at the task that raised: the results and signals of the
  tasks before it are kept.
\<close>

lemma process_image_empty_crop:
  "process_image_func
     ((demo_platform ''stoat'')\<lparr>detector := (\<lambda>img. \<lparr>names = [0 \<mapsto> ''stoat''],
         boxes = [\<lparr>xyxy = (1, 1, 1, 1), conf = 9/10, cls = 0\<rparr>]\<rparr>)\<rparr>)
     0 ''in/a.jpg'' ''tmp'' ''G1'' ''u'' = Inl Cv2Error"
  by code_simp

lemma process_image_unwritten_overlay:
  "process_image_func ((demo_platform ''stoat'')\<lparr>cv2_imread := (\<lambda>p. if p = ''in/a.jpg'' then Some [[0, 1], [2, 3]] else None),
        can_write := (\<lambda>p. False)\<rparr>)
     0 ''in/a.jpg'' ''tmp'' ''G1'' ''u'' = Inl Cv2Error"
  by code_simp

lemma worker_run_aborted:
  "worker_run (\<lambda>workers index. (demo_platform ''stoat'')\<lparr>cv2_imread := (\<lambda>p. if p \<in> {''a.jpg'', ''b.jpg'', ''c.jpg''} then Some [[0, 1], [2, 3]] else None),
        can_write := (\<lambda>p. index \<noteq> 1)\<rparr>) 4 0 (\<lambda>i. 0)
     [(''a.jpg'', (), (), ''G1''), (''b.jpg'', (), (), ''G1''), (''c.jpg'', (), (), ''G1'')] ''tmp'' ''u'' =
   (\<lparr>processed_images = [(''tmp/bbox_images/bbox_u_20240101_000000_0.900_a.jpg'',
                            ''tmp/crop_images/crop_u_20240101_000000_0.900_a.jpg'', 9/10, ''G1 stoat'')],
     progress_emitted = [(1, ''Processing image 1 of 3. Estimated remaining time: 0m 0s'')]\<rparr>,
    Some Cv2Error)"
  by code_simp











text \<open>
  C9, as amended.  When \<open>process_image_func\<close> succeeds, the group name it returns
  is the group name it was given, a space and the label of the first detection
  result; it is never the given group name itself.  Cutting the returned name
  at its last space gives back the given group name and the label, provided
  the label contains no space.
\<close>

theorem process_image_group_name:
  assumes "process_image_func pf index image_path temp_images_dir group_name user =
             Inr (Some (bbox_image_path, crop_image_path, confidence, returned_group))"
  shows "\<exists>label loaded bbox_image cropped others.
           cv2_imread pf image_path = Some loaded \<and>
           detection_main (weights_exist pf) (overlay pf) (detector pf) [loaded] =
             Inr ((bbox_image, cropped, label, confidence) # others) \<and>
           returned_group = group_name @ '' '' @ label \<and>
           returned_group \<noteq> group_name \<and>
           (CHR '' '' \<notin> set label \<longrightarrow> py_rsplit1 CHR '' '' returned_group = [group_name, label])"
proof -
  from assms obtain label loaded bbox_image cropped others where
    l: "cv2_imread pf image_path = Some loaded"
    and d: "detection_main (weights_exist pf) (overlay pf) (detector pf) [loaded] =
             Inr ((bbox_image, cropped, label, confidence) # others)"
    and g: "returned_group = group_name @ '' '' @ label"
    by (auto simp: process_image_func_def Let_def split: option.splits sum.splits list.splits)
  have ne: "returned_group \<noteq> group_name" unfolding g by simp
  have r: "py_rsplit1 CHR '' '' returned_group = [group_name, label]" if "CHR '' '' \<notin> set label"
    using py_rsplit1_append[OF that, of group_name] unfolding g by simp
  show ?thesis using l d g ne r by blast
qed

theorem process_image_group_name_witness:
  "process_image_func (demo_platform ''stoat'') 0 ''in/a.jpg'' ''tmp'' ''G1'' ''u'' =
     Inr (Some (''tmp/bbox_images/bbox_u_20240101_000000_0.900_a.jpg'', ''tmp/crop_images/crop_u_20240101_000000_0.900_a.jpg'', 9/10::rat, ''G1 stoat'')) \<and>
   py_rsplit1 CHR '' '' ''G1 stoat'' = [''G1'', ''stoat'']"
proof -
  have ev: "process_image_func (demo_platform ''stoat'') 0 ''in/a.jpg'' ''tmp'' ''G1'' ''u'' =
     Inr (Some (''tmp/bbox_images/bbox_u_20240101_000000_0.900_a.jpg'', ''tmp/crop_images/crop_u_20240101_000000_0.900_a.jpg'', 9/10::rat, ''G1 stoat''))"
    by code_simp
  from process_image_group_name[OF ev] obtain label where
    g: "''G1 stoat'' = ''G1'' @ '' '' @ label"
    and r: "CHR '' '' \<notin> set label \<longrightarrow> py_rsplit1 CHR '' '' ''G1 stoat'' = [''G1'', label]"
    by blast
  from g have l: "label = ''stoat''" by simp
  have "CHR '' '' \<notin> set ''stoat''" by simp
  then have "py_rsplit1 CHR '' '' ''G1 stoat'' = [''G1'', ''stoat'']" using r unfolding l by blast
  then show ?thesis using ev by simp
qed

text \<open>
  The claim as it is written fails for a label of two words: the returned name
  is \<open>G1 sea lion\<close>, and cutting it at the last space gives \<open>G1 sea\<close>, not the
  group name \<open>G1\<close>.
\<close>

theorem process_image_group_name_counterexample:
  "process_image_func (demo_platform ''sea lion'') 0 ''in/a.jpg'' ''tmp'' ''G1'' ''u'' =
     Inr (Some (''tmp/bbox_images/bbox_u_20240101_000000_0.900_a.jpg'', ''tmp/crop_images/crop_u_20240101_000000_0.900_a.jpg'', 9/10::rat, ''G1 sea lion'')) \<and>
   py_rsplit1 CHR '' '' ''G1 sea lion'' = [''G1 sea'', ''lion'']"
  by code_simp

end
